theory Spec2Isabelle
  imports Main "HOL-Library.Word"
begin

section \<open>The weighted LRU cache (package lrucache)\<close>

text \<open>
  The Go package keeps a \<^verbatim>\<open>container/list\<close> of entries, most recently used at the
  front, and a map from keys to \<^verbatim>\<open>*list.Element\<close>. An element pointer is modelled
  by a natural number (its address); the list is the sequence of its elements from
  front to back, each with its address and the entry stored in its \<^verbatim>\<open>Value\<close>
  field. The mutex \<^verbatim>\<open>mu\<close> is not modelled: every operation is one sequential step.
\<close>

type_synonym uint64 = "64 word"

text \<open>
  A value of the interface type \<^verbatim>\<open>ValueType\<close>: \<open>None\<close> is the nil interface,
  \<open>Some v\<close> a value of some concrete type \<open>'v\<close>, whose method \<^verbatim>\<open>Weight()\<close> is the
  function \<open>W\<close> every operation takes as its first argument.
\<close>

type_synonym 'v ValueType = "'v option"

datatype error =
    NilValue               \<comment> \<open>\<^verbatim>\<open>panic("nil values are not supported")\<close>\<close>
  | NilDereference         \<comment> \<open>runtime panic: method call or field read through nil\<close>
  | InvalidMaxWeight       \<comment> \<open>\<^verbatim>\<open>panic("Invalid maxWeight: ...")\<close>\<close>
  | OverMaxWeight          \<comment> \<open>\<^verbatim>\<open>panic("Length ... over maxWeight ...")\<close>\<close>
  | LengthMismatch         \<comment> \<open>\<^verbatim>\<open>panic("Length mismatch: ...")\<close>\<close>
  | KeyMismatch string     \<comment> \<open>\<^verbatim>\<open>panic("Mismatch for key ...")\<close>\<close>
  | SendOnClosedChannel    \<comment> \<open>runtime panic: send on closed channel\<close>
  | CloseOfClosedChannel   \<comment> \<open>runtime panic: close of closed channel\<close>
  | Blocked                \<comment> \<open>a send that finds the buffer full and waits for a receiver\<close>
  | Dangling               \<comment> \<open>an address that names no element: no Go state is like this\<close>

record 'v entry =
  Key :: string
  Value :: "'v ValueType"

type_synonym 'v Element = "nat \<times> 'v entry"

record 'v Cache =
  maxWeight :: uint64
  occupiedWeight :: uint64
  entries :: "'v Element list"
  index :: "string \<rightharpoonup> nat"
  nextElem :: nat   \<comment> \<open>the address the next allocated list element gets\<close>

subsection \<open>The operations of container/list that the cache uses\<close>

definition Back :: "'v Element list \<Rightarrow> 'v Element option" where
  "Back l = (if l = [] then None else Some (last l))"

definition Remove :: "'v Element list \<Rightarrow> nat \<Rightarrow> 'v Element list" where
  "Remove l e = filter (\<lambda>x. fst x \<noteq> e) l"

definition elemAt :: "'v Element list \<Rightarrow> nat \<Rightarrow> 'v entry option" where
  "elemAt l e = map_of l e"

definition MoveToFront :: "'v Element list \<Rightarrow> nat \<Rightarrow> 'v Element list" where
  "MoveToFront l e =
     (case elemAt l e of None \<Rightarrow> l | Some en \<Rightarrow> (e, en) # Remove l e)"

definition setValue :: "'v Element list \<Rightarrow> nat \<Rightarrow> 'v entry \<Rightarrow> 'v Element list" where
  "setValue l e en = map (\<lambda>x. if fst x = e then (e, en) else x) l"

text \<open>A method call \<^verbatim>\<open>x.Weight()\<close> on an interface value panics when \<open>x\<close> is nil.\<close>

definition callWeight :: "('v \<Rightarrow> uint64) \<Rightarrow> 'v ValueType \<Rightarrow> error + uint64" where
  "callWeight W x = (case x of None \<Rightarrow> Inl NilDereference | Some v \<Rightarrow> Inr (W v))"

subsection \<open>New and CheckInvariants\<close>

definition New :: "uint64 \<Rightarrow> 'v Cache" where
  "New mw = \<lparr>maxWeight = mw, occupiedWeight = 0, entries = [], index = Map.empty,
            nextElem = 0\<rparr>"

text \<open>
  The loop over the element types always passes here: every element of the model holds
  an entry. \<^verbatim>\<open>len(c.index)\<close> is the number of keys of the map.
\<close>

fun checkElements :: "(string \<rightharpoonup> nat) \<Rightarrow> 'v Element list \<Rightarrow> error + unit" where
  "checkElements ix [] = Inr ()"
| "checkElements ix (x # xs) =
     (if ix (Key (snd x)) \<noteq> Some (fst x) then Inl (KeyMismatch (Key (snd x)))
      else checkElements ix xs)"

definition CheckInvariants :: "'v Cache \<Rightarrow> error + unit" where
  "CheckInvariants c =
     (if \<not> (maxWeight c > 0) then Inl InvalidMaxWeight
      else if \<not> (occupiedWeight c \<le> maxWeight c) then Inl OverMaxWeight
      else if length (entries c) \<noteq> card (dom (index c)) then Inl LengthMismatch
      else checkElements (index c) (entries c))"

subsection \<open>Insert, Erase, LookUp\<close>

definition evictOne ::
  "('v \<Rightarrow> uint64) \<Rightarrow> 'v Cache \<Rightarrow> error + ('v ValueType \<times> 'v Cache)" where
  "evictOne W c =
     (case Back (entries c) of
        None \<Rightarrow> Inl NilDereference
      | Some e \<Rightarrow>
          (let key = Key (snd e); evictedEntry = Value (snd e) in
           case callWeight W evictedEntry of
             Inl err \<Rightarrow> Inl err
           | Inr w \<Rightarrow>
               Inr (evictedEntry,
                    c\<lparr>occupiedWeight := occupiedWeight c - w,
                      entries := Remove (entries c) (fst e),
                      index := (index c)(key := None)\<rparr>)))"

text \<open>The loop \<^verbatim>\<open>for c.occupiedWeight > c.maxWeight { ... evictOne() }\<close> of Insert.\<close>

function evictLoop ::
  "('v \<Rightarrow> uint64) \<Rightarrow> 'v Cache \<Rightarrow> 'v ValueType list
     \<Rightarrow> error + ('v ValueType list \<times> 'v Cache)" where
  "evictLoop W c evictedValues =
     (if occupiedWeight c > maxWeight c then
        (case evictOne W c of
           Inl err \<Rightarrow> Inl err
         | Inr (v, c') \<Rightarrow> evictLoop W c' (evictedValues @ [v]))
      else Inr (evictedValues, c))"
  by pat_completeness auto
termination
proof (relation "measure (\<lambda>(W, c, ev). length (entries c))")
  show "wf (measure (\<lambda>(W, c, ev). length (entries c)))" by simp
next
  fix W :: "'v \<Rightarrow> uint64" and c c' :: "'v Cache" and evictedValues x v
  assume a: "evictOne W c = Inr x" and x: "(v, c') = x"
  from a x have ne: "entries c \<noteq> []"
    by (auto simp: evictOne_def Back_def split: if_splits)
  from a x have e: "entries c' = Remove (entries c) (fst (last (entries c)))"
    by (auto simp: evictOne_def Back_def Let_def split: if_splits sum.splits)
  have "last (entries c) \<in> set (entries c)" using ne by simp
  then have "length (filter (\<lambda>x. fst x \<noteq> fst (last (entries c))) (entries c))
               < length (entries c)"
    by (intro length_filter_less[where x = "last (entries c)"]) auto
  then show "((W, c', evictedValues @ [v]), (W, c, evictedValues))
               \<in> measure (\<lambda>(W, c, ev). length (entries c))"
    by (simp add: e Remove_def)
qed

declare evictLoop.simps [simp del]

definition Insert ::
  "('v \<Rightarrow> uint64) \<Rightarrow> 'v Cache \<Rightarrow> string \<Rightarrow> 'v ValueType
     \<Rightarrow> error + ('v ValueType list \<times> 'v Cache)" where
  "Insert W c key val =
     (case val of
        None \<Rightarrow> Inl NilValue
      | Some v \<Rightarrow>
          (case index c key of
             Some e \<Rightarrow>
               (case elemAt (entries c) e of
                  None \<Rightarrow> Inl Dangling
                | Some old \<Rightarrow>
                    (case callWeight W (Value old) of
                       Inl err \<Rightarrow> Inl err
                     | Inr w \<Rightarrow>
                         evictLoop W
                           (c\<lparr>occupiedWeight := occupiedWeight c - w + W v,
                              entries :=
                                MoveToFront
                                  (setValue (entries c) e \<lparr>Key = key, Value = val\<rparr>) e\<rparr>)
                           []))
           | None \<Rightarrow>
               (let e = nextElem c in
                evictLoop W
                  (c\<lparr>entries := (e, \<lparr>Key = key, Value = val\<rparr>) # entries c,
                     index := (index c)(key \<mapsto> e),
                     occupiedWeight := occupiedWeight c + W v,
                     nextElem := Suc e\<rparr>)
                  [])))"

text \<open>
  Erase declares the named result \<^verbatim>\<open>value\<close> (here \<open>val\<close>), which is nil until the
  function assigns it, and it never does: the weight is read through \<^verbatim>\<open>value\<close>,
  not through \<^verbatim>\<open>deletedEntry\<close>.
\<close>

definition Erase ::
  "('v \<Rightarrow> uint64) \<Rightarrow> 'v Cache \<Rightarrow> string \<Rightarrow> error + ('v ValueType \<times> 'v Cache)" where
  "Erase W c key =
     (let val = None in
      case index c key of
        None \<Rightarrow> Inr (val, c)
      | Some e \<Rightarrow>
          (case elemAt (entries c) e of
             None \<Rightarrow> Inl Dangling
           | Some en \<Rightarrow>
               (let deletedEntry = Value en in
                case callWeight W val of
                  Inl err \<Rightarrow> Inl err
                | Inr w \<Rightarrow>
                    Inr (deletedEntry,
                         c\<lparr>occupiedWeight := occupiedWeight c - w,
                           index := (index c)(key := None),
                           entries := Remove (entries c) e\<rparr>))))"

definition LookUp :: "'v Cache \<Rightarrow> string \<Rightarrow> error + ('v ValueType \<times> 'v Cache)" where
  "LookUp c key =
     (case index c key of
        None \<Rightarrow> Inr (None, c)
      | Some e \<Rightarrow>
          (case elemAt (entries c) e of
             None \<Rightarrow> Inl Dangling
           | Some en \<Rightarrow> Inr (Value en, c\<lparr>entries := MoveToFront (entries c) e\<rparr>)))"

subsection \<open>Gob encoding\<close>

text \<open>
  \<^verbatim>\<open>encoding/gob\<close> is a library outside the repository. The byte slice is modelled
  as the sequence of messages it carries: each \<^verbatim>\<open>Encode\<close> call appends one message
  holding the value, each \<^verbatim>\<open>Decode\<close> call reads the next message into a variable of
  the expected type. The bytes inside a message are not modelled. Following the
  comment on \<^verbatim>\<open>Cache\<close>, an interface value travels only when its concrete type is
  registered, which the predicate \<open>reg\<close> decides.
\<close>

datatype 'v gobValue = GobUint64 uint64 | GobEntrySlice "'v entry list"

datatype gobError = EOF | TypeMismatch | NotRegistered

datatype goError = Errorf string gobError

definition registered :: "('v \<Rightarrow> bool) \<Rightarrow> 'v entry list \<Rightarrow> bool" where
  "registered reg es =
     list_all (\<lambda>en. case Value en of None \<Rightarrow> True | Some v \<Rightarrow> reg v) es"

definition encodeUint64 :: "'v gobValue list \<Rightarrow> uint64 \<Rightarrow> gobError + 'v gobValue list" where
  "encodeUint64 buf x = Inr (buf @ [GobUint64 x])"

definition encodeEntries ::
  "('v \<Rightarrow> bool) \<Rightarrow> 'v gobValue list \<Rightarrow> 'v entry list \<Rightarrow> gobError + 'v gobValue list" where
  "encodeEntries reg buf es =
     (if registered reg es then Inr (buf @ [GobEntrySlice es]) else Inl NotRegistered)"

fun decodeUint64 :: "'v gobValue list \<Rightarrow> gobError + (uint64 \<times> 'v gobValue list)" where
  "decodeUint64 [] = Inl EOF"
| "decodeUint64 (GobUint64 x # rest) = Inr (x, rest)"
| "decodeUint64 (GobEntrySlice es # rest) = Inl TypeMismatch"

fun decodeEntries ::
  "('v \<Rightarrow> bool) \<Rightarrow> 'v gobValue list \<Rightarrow> gobError + ('v entry list \<times> 'v gobValue list)" where
  "decodeEntries reg [] = Inl EOF"
| "decodeEntries reg (GobUint64 x # rest) = Inl TypeMismatch"
| "decodeEntries reg (GobEntrySlice es # rest) =
     (if registered reg es then Inr (es, rest) else Inl NotRegistered)"

definition GobEncode :: "('v \<Rightarrow> bool) \<Rightarrow> 'v Cache \<Rightarrow> goError + 'v gobValue list" where
  "GobEncode reg c =
     (let entrySlice = map snd (entries c) in
      case encodeUint64 [] (maxWeight c) of
        Inl err \<Rightarrow> Inl (Errorf ''encoding maxWeight'' err)
      | Inr buf1 \<Rightarrow>
          (case encodeUint64 buf1 (occupiedWeight c) of
             Inl err \<Rightarrow> Inl (Errorf ''encoding occupiedWeight'' err)
           | Inr buf2 \<Rightarrow>
               (case encodeEntries reg buf2 entrySlice of
                  Inl err \<Rightarrow> Inl (Errorf ''encoding entries'' err)
                | Inr buf3 \<Rightarrow> Inr buf3)))"

text \<open>The loop \<^verbatim>\<open>for _, entry := range entrySlice\<close> of GobDecode.\<close>

fun storeEach :: "'v Cache \<Rightarrow> 'v entry list \<Rightarrow> 'v Cache" where
  "storeEach c [] = c"
| "storeEach c (en # rest) =
     storeEach
       (c\<lparr>entries := entries c @ [(nextElem c, en)],
          index := (index c)(Key en \<mapsto> nextElem c),
          nextElem := Suc (nextElem c)\<rparr>)
       rest"

text \<open>
  GobDecode returns an error value and has overwritten the receiver by then or not:
  the result is the error together with the cache the receiver holds afterwards.
\<close>

definition GobDecode ::
  "('v \<Rightarrow> bool) \<Rightarrow> 'v Cache \<Rightarrow> 'v gobValue list \<Rightarrow> goError option \<times> 'v Cache" where
  "GobDecode reg c b =
     (case decodeUint64 b of
        Inl err \<Rightarrow> (Some (Errorf ''decoding maxWeight'' err), c)
      | Inr (mw, b1) \<Rightarrow>
          (case decodeUint64 b1 of
             Inl err \<Rightarrow> (Some (Errorf ''decoding occupiedWeight'' err), c)
           | Inr (ow, b2) \<Rightarrow>
               (let c1 = New mw in
                case decodeEntries reg b2 of
                  Inl err \<Rightarrow> (Some (Errorf ''decoding entries'' err), c1)
                | Inr (entrySlice, b3) \<Rightarrow>
                    (None, (storeEach c1 entrySlice)\<lparr>occupiedWeight := ow\<rparr>))))"

section \<open>The download job (package downloader)\<close>

type_synonym int64 = "64 word"   \<comment> \<open>read as a signed number by \<open>sint\<close>\<close>

type_synonym jobStatusName = string

definition NOT_STARTED :: jobStatusName where "NOT_STARTED = ''NOT_STARTED''"
definition DOWNLOADING :: jobStatusName where "DOWNLOADING = ''DOWNLOADING''"
definition COMPLETED :: jobStatusName where "COMPLETED = ''COMPLETED''"
definition FAILED :: jobStatusName where "FAILED = ''FAILED''"
definition CANCELLED :: jobStatusName where "CANCELLED = ''CANCELLED''"

record JobStatus =
  Name :: jobStatusName
  Err :: "string option"   \<comment> \<open>an error value by its message, \<open>None\<close> for nil\<close>
  Offset :: int64

record jobSubscriber =
  notificationC :: nat     \<comment> \<open>the address of the channel\<close>
  subscribedOffset :: int64

text \<open>
  A buffered channel of JobStatus: what is in its buffer, its capacity and whether it
  has been closed. The heap of channels also records every send and close in the order
  they happen. Receivers run in other goroutines and are not modelled.
\<close>

record chan =
  buf :: "JobStatus list"
  cap :: nat
  isClosed :: bool

datatype chanEvent = Sent nat JobStatus | Closed nat

record chanHeap =
  chans :: "nat \<rightharpoonup> chan"
  events :: "chanEvent list"
  nextChan :: nat

definition make_chan :: "chanHeap \<Rightarrow> nat \<Rightarrow> nat \<times> chanHeap" where
  "make_chan h n =
     (nextChan h,
      h\<lparr>chans := (chans h)(nextChan h \<mapsto> \<lparr>buf = [], cap = n, isClosed = False\<rparr>),
        nextChan := Suc (nextChan h)\<rparr>)"

definition send :: "chanHeap \<Rightarrow> nat \<Rightarrow> JobStatus \<Rightarrow> error + chanHeap" where
  "send h ch st =
     (case chans h ch of
        None \<Rightarrow> Inl Dangling
      | Some c \<Rightarrow>
          if isClosed c then Inl SendOnClosedChannel
          else if length (buf c) \<ge> cap c then Inl Blocked
          else Inr (h\<lparr>chans := (chans h)(ch \<mapsto> c\<lparr>buf := buf c @ [st]\<rparr>),
                      events := events h @ [Sent ch st]\<rparr>))"

definition close :: "chanHeap \<Rightarrow> nat \<Rightarrow> error + chanHeap" where
  "close h ch =
     (case chans h ch of
        None \<Rightarrow> Inl Dangling
      | Some c \<Rightarrow>
          if isClosed c then Inl CloseOfClosedChannel
          else Inr (h\<lparr>chans := (chans h)(ch \<mapsto> c\<lparr>isClosed := True\<rparr>),
                      events := events h @ [Closed ch]\<rparr>))"

text \<open>
  Of \<^verbatim>\<open>gcs.MinObject\<close> and the job's constant data only the fields that the functions
  below read are kept. The bucket is its name, \<^verbatim>\<open>fileInfoCache\<close> points to a cache
  that the functions using it take and return, and the context and the lock are not
  modelled.
\<close>

record MinObject =
  objName :: string
  Generation :: int64
  Size :: uint64

record Job =
  object :: MinObject
  bucket :: string
  status :: JobStatus
  subscribers :: "jobSubscriber list"

definition init :: "Job \<Rightarrow> Job" where
  "init job = job\<lparr>status := \<lparr>Name = NOT_STARTED, Err = None, Offset = 0\<rparr>,
                  subscribers := []\<rparr>"

definition NewJob :: "MinObject \<Rightarrow> string \<Rightarrow> Job" where
  "NewJob obj b =
     init \<lparr>object = obj, bucket = b,
           status = \<lparr>Name = [], Err = None, Offset = 0\<rparr>, subscribers = []\<rparr>"

text \<open>Cancel only takes and releases the lock: its body is still to be written.\<close>

definition Cancel :: "Job \<Rightarrow> Job" where
  "Cancel job = job"

definition subscribe :: "Job \<Rightarrow> chanHeap \<Rightarrow> int64 \<Rightarrow> nat \<times> Job \<times> chanHeap" where
  "subscribe job h off =
     (let (subscriberC, h') = make_chan h 1 in
      (subscriberC,
       job\<lparr>subscribers :=
             subscribers job @ [\<lparr>notificationC = subscriberC, subscribedOffset = off\<rparr>]\<rparr>,
       h'))"

text \<open>
  The loop of notifySubscribers walks the list from the front and removes the
  subscribers it notifies: the function returns those that stay, in their order.
\<close>

definition ready :: "JobStatus \<Rightarrow> jobSubscriber \<Rightarrow> bool" where
  "ready st s \<longleftrightarrow>
     Name st = FAILED \<or> Name st = CANCELLED \<or> sint (Offset st) \<ge> sint (subscribedOffset s)"

fun notifyLoop ::
  "JobStatus \<Rightarrow> jobSubscriber list \<Rightarrow> chanHeap \<Rightarrow> error + (jobSubscriber list \<times> chanHeap)" where
  "notifyLoop st [] h = Inr ([], h)"
| "notifyLoop st (s # rest) h =
     (if ready st s then
        (case send h (notificationC s) st of
           Inl err \<Rightarrow> Inl err
         | Inr h1 \<Rightarrow>
             (case close h1 (notificationC s) of
                Inl err \<Rightarrow> Inl err
              | Inr h2 \<Rightarrow> notifyLoop st rest h2))
      else
        (case notifyLoop st rest h of
           Inl err \<Rightarrow> Inl err
         | Inr (keep, h') \<Rightarrow> Inr (s # keep, h')))"

definition notifySubscribers :: "Job \<Rightarrow> chanHeap \<Rightarrow> error + (Job \<times> chanHeap)" where
  "notifySubscribers job h =
     (case notifyLoop (status job) (subscribers job) h of
        Inl err \<Rightarrow> Inl err
      | Inr (keep, h') \<Rightarrow> Inr (job\<lparr>subscribers := keep\<rparr>, h'))"

definition failWhileDownloading ::
  "string \<Rightarrow> Job \<Rightarrow> chanHeap \<Rightarrow> error + (Job \<times> chanHeap)" where
  "failWhileDownloading downloadErr job h =
     notifySubscribers
       (job\<lparr>status := (status job)\<lparr>Err := Some downloadErr, Name := FAILED\<rparr>\<rparr>) h"

text \<open>
  Download only takes and releases the lock and returns its named result, which is
  the zero JobStatus: its body is still to be written.
\<close>

definition Download :: "Job \<Rightarrow> int64 \<Rightarrow> bool \<Rightarrow> JobStatus \<times> Job" where
  "Download job off waitForDownload = (\<lparr>Name = [], Err = None, Offset = 0\<rparr>, job)"








section \<open>Sequences of operations, and what the proofs maintain\<close>

datatype 'v cacheOp = OpInsert string "'v ValueType" | OpErase string | OpLookUp string

fun applyOp :: "('v \<Rightarrow> uint64) \<Rightarrow> 'v Cache \<Rightarrow> 'v cacheOp \<Rightarrow> error + 'v Cache" where
  "applyOp W c (OpInsert k v) = map_sum id snd (Insert W c k v)"
| "applyOp W c (OpErase k) = map_sum id snd (Erase W c k)"
| "applyOp W c (OpLookUp k) = map_sum id snd (LookUp c k)"

text \<open>A panic ends the run: the operations after it are not made.\<close>

fun runOps :: "('v \<Rightarrow> uint64) \<Rightarrow> 'v Cache \<Rightarrow> 'v cacheOp list \<Rightarrow> error + 'v Cache" where
  "runOps W c [] = Inr c"
| "runOps W c (x # xs) =
     (case applyOp W c x of Inl err \<Rightarrow> Inl err | Inr c' \<Rightarrow> runOps W c' xs)"

definition weightOf :: "('v \<Rightarrow> uint64) \<Rightarrow> 'v ValueType \<Rightarrow> uint64" where
  "weightOf W x = (case x of None \<Rightarrow> 0 | Some v \<Rightarrow> W v)"

text \<open>The sum of the weights in uint64 arithmetic, and the sum as a natural number.\<close>

definition sumWeights :: "('v \<Rightarrow> uint64) \<Rightarrow> 'v Element list \<Rightarrow> uint64" where
  "sumWeights W l = sum_list (map (\<lambda>x. weightOf W (Value (snd x))) l)"

definition totalWeight :: "('v \<Rightarrow> uint64) \<Rightarrow> 'v Element list \<Rightarrow> nat" where
  "totalWeight W l = sum_list (map (\<lambda>x. unat (weightOf W (Value (snd x)))) l)"

text \<open>
  The comments on the fields of \<^verbatim>\<open>Cache\<close>, on the model: the elements of the list
  have different addresses, all allocated already; no stored value is nil; the index
  holds, for each key, the element of the list with this key, and nothing else.
\<close>

definition cache_ok :: "'v Cache \<Rightarrow> bool" where
  "cache_ok c \<longleftrightarrow>
     distinct (map fst (entries c))
     \<and> list_all (\<lambda>x. fst x < nextElem c \<and> Value (snd x) \<noteq> None
                      \<and> index c (Key (snd x)) = Some (fst x)) (entries c)
     \<and> (\<forall>k a. index c k = Some a \<longrightarrow> map_option Key (elemAt (entries c) a) = Some k)"

definition cache_inv :: "('v \<Rightarrow> uint64) \<Rightarrow> 'v Cache \<Rightarrow> bool" where
  "cache_inv W c \<longleftrightarrow> cache_ok c \<and> occupiedWeight c = sumWeights W (entries c)"

text \<open>Weights for the examples: every value weighs 4, or 0, or is its own weight.\<close>

definition weight4 :: "string \<Rightarrow> uint64" where "weight4 v = 4"
definition weight0 :: "string \<Rightarrow> uint64" where "weight0 v = 0"
definition weightSelf :: "uint64 \<Rightarrow> uint64" where "weightSelf v = v"

text \<open>
  The cache after a value of weight \<open>2^64 - 1\<close> and a value of weight 1 have been inserted
  into a cache of maxWeight \<open>2^64 - 1\<close>.
\<close>

definition wrappedCache :: "uint64 Cache" where
  "wrappedCache =
     \<lparr>maxWeight = - 1, occupiedWeight = 0,
      entries = [(Suc 0, \<lparr>Key = ''B'', Value = Some 1\<rparr>),
                 (0, \<lparr>Key = ''A'', Value = Some (- 1)\<rparr>)],
      index = Map.empty(''A'' \<mapsto> 0, ''B'' \<mapsto> Suc 0), nextElem = Suc (Suc 0)\<rparr>"



definition exampleJob :: Job where
  "exampleJob =
     \<lparr>object = \<lparr>objName = ''obj'', Generation = 1, Size = 9\<rparr>, bucket = ''bkt'',
      status = \<lparr>Name = DOWNLOADING, Err = None, Offset = 5\<rparr>, subscribers = []\<rparr>"


text \<open>For the examples: every concrete type has been registered with gob.\<close>

definition anyType :: "string \<Rightarrow> bool" where
  "anyType v = True"

text \<open>
  What subscribe leaves behind: every subscriber has a channel of its own, of capacity
  1, with nothing in it and not closed.
\<close>

definition subs_ok :: "chanHeap \<Rightarrow> jobSubscriber list \<Rightarrow> bool" where
  "subs_ok h subs \<longleftrightarrow>
     distinct (map notificationC subs)
     \<and> list_all (\<lambda>s. chans h (notificationC s) = Some \<lparr>buf = [], cap = 1, isClosed = False\<rparr>)
          subs"

text \<open>What a notified subscriber's channel has seen: the status, then the close.\<close>

definition fired :: "JobStatus \<Rightarrow> jobSubscriber \<Rightarrow> chanEvent list" where
  "fired st s = [Sent (notificationC s) st, Closed (notificationC s)]"

text \<open>The steps of a job: a Download, a Cancel, or a failure of the fetch.\<close>

datatype jobOp = OpDownload int64 bool | OpCancel | OpFail string

fun jobStep :: "Job \<times> chanHeap \<Rightarrow> jobOp \<Rightarrow> error + (Job \<times> chanHeap)" where
  "jobStep (job, h) (OpDownload off w) = Inr (snd (Download job off w), h)"
| "jobStep (job, h) OpCancel = Inr (Cancel job, h)"
| "jobStep (job, h) (OpFail e) = failWhileDownloading e job h"

fun runJob :: "Job \<times> chanHeap \<Rightarrow> jobOp list \<Rightarrow> error + (Job \<times> chanHeap)" where
  "runJob s [] = Inr s"
| "runJob s (x # xs) = (case jobStep s x of Inl err \<Rightarrow> Inl err | Inr s' \<Rightarrow> runJob s' xs)"

text \<open>
  For the examples: a job that has downloaded 50 bytes, on which three callers have
  subscribed, for the offsets 10, 1000 and 1000000.
\<close>

definition emptyHeap :: chanHeap where
  "emptyHeap = \<lparr>chans = Map.empty, events = [], nextChan = 0\<rparr>"

definition threeSubscribers :: "Job \<times> chanHeap" where
  "threeSubscribers =
     (let job0 = exampleJob\<lparr>status := \<lparr>Name = DOWNLOADING, Err = None, Offset = 50\<rparr>\<rparr>;
          (c1, job1, h1) = subscribe job0 emptyHeap 10;
          (c2, job2, h2) = subscribe job1 h1 1000;
          (c3, job3, h3) = subscribe job2 h2 1000000
      in (job3, h3))"

lemmas cache_defs =
  Insert_def New_def Erase_def LookUp_def elemAt_def callWeight_def evictOne_def Back_def
  Remove_def MoveToFront_def setValue_def Let_def evictLoop.simps

section \<open>Properties of the cache\<close>

lemma cache_ok_New: "cache_ok (New mw)"
  by (simp add: cache_ok_def New_def elemAt_def)

lemma cache_inv_New: "cache_inv W (New mw)"
  by (simp add: cache_inv_def cache_ok_New) (simp add: New_def sumWeights_def)

lemma elemAt_iff: "distinct (map fst l) \<Longrightarrow> elemAt l e = Some en \<longleftrightarrow> (e, en) \<in> set l"
  by (simp add: elemAt_def)

lemma cache_ok_elem:
  assumes "cache_ok c" and "(a, en) \<in> set (entries c)"
  shows "a < nextElem c" and "Value en \<noteq> None" and "index c (Key en) = Some a"
  using assms by (auto simp: cache_ok_def list_all_iff)

lemma cache_ok_index:
  assumes "cache_ok c" and "index c k = Some a"
  shows "\<exists>en. (a, en) \<in> set (entries c) \<and> Key en = k"
proof -
  from assms have "map_option Key (elemAt (entries c) a) = Some k"
    by (simp add: cache_ok_def)
  then obtain en where "elemAt (entries c) a = Some en" "Key en = k" by auto
  moreover have "distinct (map fst (entries c))" using assms(1) by (simp add: cache_ok_def)
  ultimately show ?thesis by (auto simp: elemAt_iff)
qed

lemma cache_ok_fst_key:
  assumes ok: "cache_ok c" and ix: "index c k = Some a" and x: "x \<in> set (entries c)"
  shows "fst x = a \<longleftrightarrow> Key (snd x) = k"
proof
  assume "fst x = a"
  from cache_ok_index[OF ok ix] obtain en where en: "(a, en) \<in> set (entries c)" "Key en = k"
    by blast
  have d: "distinct (map fst (entries c))" using ok by (simp add: cache_ok_def)
  from x \<open>fst x = a\<close> have "(a, snd x) \<in> set (entries c)" by (cases x) auto
  with en d have "snd x = en" by (meson eq_key_imp_eq_value)
  with en show "Key (snd x) = k" by simp
next
  assume "Key (snd x) = k"
  from x have "(fst x, snd x) \<in> set (entries c)" by simp
  from cache_ok_elem(3)[OF ok this] \<open>Key (snd x) = k\<close> ix show "fst x = a" by simp
qed

lemma Remove_by_key:
  assumes ok: "cache_ok c" and ix: "index c k = Some a"
  shows "Remove (entries c) a = filter (\<lambda>x. Key (snd x) \<noteq> k) (entries c)"
  unfolding Remove_def
  by (rule filter_cong[OF refl]) (simp add: cache_ok_fst_key[OF ok ix])

lemma sumWeights_remove:
  assumes d: "distinct (map fst l)" and m: "(a, en) \<in> set l"
  shows "sumWeights W (filter (\<lambda>x. fst x \<noteq> a) l) = sumWeights W l - weightOf W (Value en)"
  using d m
proof (induction l)
  case Nil
  then show ?case by simp
next
  case (Cons x xs)
  show ?case
  proof (cases "fst x = a")
    case True
    with Cons.prems have xe: "x = (a, en)"
      by (cases x) (auto simp: image_iff)
    from Cons.prems True have "\<forall>y\<in>set xs. fst y \<noteq> a" by (auto simp: image_iff)
    then have "filter (\<lambda>x. fst x \<noteq> a) xs = xs" by (simp add: filter_id_conv)
    then show ?thesis using xe by (simp add: sumWeights_def)
  next
    case False
    with Cons.prems have "(a, en) \<in> set xs" by auto
    with Cons False show ?thesis by (simp add: sumWeights_def)
  qed
qed

lemma Remove_last:
  assumes "distinct (map fst l)" and "l \<noteq> []"
  shows "Remove l (fst (last l)) = butlast l"
proof -
  from assms(2) obtain ys y where l: "l = ys @ [y]" by (metis rev_exhaust)
  with assms(1) have "\<forall>z\<in>set ys. fst z \<noteq> fst y" by (auto simp: image_iff)
  then have "filter (\<lambda>x. fst x \<noteq> fst y) ys = ys" by (simp add: filter_id_conv)
  then show ?thesis by (simp add: l Remove_def)
qed

lemma evictOne_ok:
  assumes inv: "cache_inv W c" and ne: "entries c \<noteq> []"
  shows "\<exists>c'. evictOne W c = Inr (Value (snd (last (entries c))), c')
           \<and> cache_inv W c' \<and> entries c' = butlast (entries c)
           \<and> maxWeight c' = maxWeight c"
proof -
  from inv have ok: "cache_ok c" and occ: "occupiedWeight c = sumWeights W (entries c)"
    by (simp_all add: cache_inv_def)
  have d: "distinct (map fst (entries c))" using ok by (simp add: cache_ok_def)
  obtain a en where le: "last (entries c) = (a, en)" by (cases "last (entries c)")
  with ne have mem: "(a, en) \<in> set (entries c)" by (metis last_in_set)
  from cache_ok_elem[OF ok mem] obtain v where v: "Value en = Some v"
    and ix: "index c (Key en) = Some a" and lt: "a < nextElem c" by auto
  define c' where "c' = c\<lparr>occupiedWeight := occupiedWeight c - W v,
                           entries := Remove (entries c) a,
                           index := (index c)(Key en := None)\<rparr>"
  have ev: "evictOne W c = Inr (Value en, c')"
    using ne le v by (simp add: evictOne_def Back_def callWeight_def c'_def)
  have rm: "Remove (entries c) a = butlast (entries c)"
    using Remove_last[OF d ne] le by simp
  have sub: "set (butlast (entries c)) \<subseteq> set (entries c)"
    by (auto dest: in_set_butlastD)
  have keys: "\<And>x. x \<in> set (butlast (entries c)) \<Longrightarrow> Key (snd x) \<noteq> Key en"
  proof
    fix x assume x: "x \<in> set (butlast (entries c))" and k: "Key (snd x) = Key en"
    from x sub have xm: "x \<in> set (entries c)" by blast
    from cache_ok_fst_key[OF ok ix xm] k have "fst x = a" by simp
    moreover from x rm have "x \<in> set (Remove (entries c) a)" by simp
    ultimately show False by (simp add: Remove_def)
  qed
  have d': "distinct (map fst (butlast (entries c)))"
    using d by (simp add: distinct_butlast map_butlast)
  have ok': "cache_ok c'"
    unfolding cache_ok_def
  proof (intro conjI allI impI)
    show "distinct (map fst (entries c'))" using d' by (simp add: c'_def rm)
  next
    show "list_all (\<lambda>x. fst x < nextElem c' \<and> Value (snd x) \<noteq> None
                        \<and> index c' (Key (snd x)) = Some (fst x)) (entries c')"
      unfolding list_all_iff
    proof
      fix x assume "x \<in> set (entries c')"
      then have xb: "x \<in> set (butlast (entries c))" by (simp add: c'_def rm)
      with sub have "(fst x, snd x) \<in> set (entries c)" by auto
      from cache_ok_elem[OF ok this] keys[OF xb]
      show "fst x < nextElem c' \<and> Value (snd x) \<noteq> None
              \<and> index c' (Key (snd x)) = Some (fst x)"
        by (simp add: c'_def)
    qed
  next
    fix k b assume "index c' k = Some b"
    then have kne: "k \<noteq> Key en" and ixk: "index c k = Some b"
      by (auto simp: c'_def split: if_splits)
    from cache_ok_index[OF ok ixk] obtain en' where m: "(b, en') \<in> set (entries c)"
      and ke: "Key en' = k" by blast
    have "b \<noteq> a"
    proof
      assume "b = a"
      with m mem d have "en' = en" by (meson eq_key_imp_eq_value)
      with ke kne show False by simp
    qed
    with m have "(b, en') \<in> set (Remove (entries c) a)" by (simp add: Remove_def)
    with rm have "(b, en') \<in> set (entries c')" by (simp add: c'_def)
    moreover have "distinct (map fst (entries c'))" using d' by (simp add: c'_def rm)
    ultimately have "elemAt (entries c') b = Some en'" by (simp add: elemAt_iff)
    with ke show "map_option Key (elemAt (entries c') b) = Some k" by simp
  qed
  have "sumWeights W (Remove (entries c) a) = sumWeights W (entries c) - weightOf W (Value en)"
    unfolding Remove_def by (rule sumWeights_remove[OF d mem])
  then have occ': "occupiedWeight c' = sumWeights W (entries c')"
    using occ v by (simp add: c'_def weightOf_def)
  show ?thesis
    using ev ok' occ' le rm by (simp add: cache_inv_def c'_def)
qed

lemma evictLoop_ok:
  "cache_inv W c \<Longrightarrow>
   \<exists>n c'. evictLoop W c ev
            = Inr (ev @ rev (map (\<lambda>x. Value (snd x)) (drop n (entries c))), c')
        \<and> cache_inv W c' \<and> occupiedWeight c' \<le> maxWeight c'
        \<and> maxWeight c' = maxWeight c \<and> entries c' = take n (entries c)
        \<and> n \<le> length (entries c)
        \<and> (n = 0 \<longrightarrow> entries c = []
                \<or> \<not> weightOf W (Value (snd (hd (entries c)))) \<le> maxWeight c)"
proof (induction W c ev rule: evictLoop.induct)
  case (1 W c ev)
  show ?case
  proof (cases "occupiedWeight c > maxWeight c")
    case False
    then have "evictLoop W c ev = Inr (ev, c)" by (subst evictLoop.simps) simp
    moreover have "entries c \<noteq> [] \<Longrightarrow>
        \<not> weightOf W (Value (snd (hd (entries c)))) \<le> maxWeight c \<Longrightarrow> length (entries c) \<noteq> 0"
      by simp
    ultimately show ?thesis using "1.prems" False
      by (intro exI[of _ "length (entries c)"] exI[of _ c]) auto
  next
    case True
    have occ: "occupiedWeight c = sumWeights W (entries c)"
      using "1.prems" by (simp add: cache_inv_def)
    have ne: "entries c \<noteq> []"
    proof
      assume "entries c = []"
      with occ have "occupiedWeight c = 0" by (simp add: sumWeights_def)
      with True show False by simp
    qed
    from evictOne_ok[OF "1.prems" ne] obtain c1 where
      e1: "evictOne W c = Inr (Value (snd (last (entries c))), c1)"
      and i1: "cache_inv W c1" and b1: "entries c1 = butlast (entries c)"
      and m1: "maxWeight c1 = maxWeight c" by blast
    from "1.IH"[OF True e1 refl i1] obtain n c' where
      r: "evictLoop W c1 (ev @ [Value (snd (last (entries c)))])
            = Inr ((ev @ [Value (snd (last (entries c)))])
                     @ rev (map (\<lambda>x. Value (snd x)) (drop n (entries c1))), c')"
      and i': "cache_inv W c'" and le': "occupiedWeight c' \<le> maxWeight c'"
      and m': "maxWeight c' = maxWeight c1" and t': "entries c' = take n (entries c1)"
      and n': "n \<le> length (entries c1)"
      and z': "n = 0 \<longrightarrow> entries c1 = []
                 \<or> \<not> weightOf W (Value (snd (hd (entries c1)))) \<le> maxWeight c1"
      by blast
    have lp: "evictLoop W c ev = evictLoop W c1 (ev @ [Value (snd (last (entries c)))])"
      using True e1 by (subst evictLoop.simps) simp
    have "n \<le> length (entries c) - 1" using n' b1 by simp
    moreover have "length (entries c) > 0" using ne by simp
    ultimately have nlt: "n < length (entries c)" by arith
    have "drop n (butlast (entries c) @ [last (entries c)])
            = drop n (butlast (entries c)) @ [last (entries c)]"
      using n' b1 by simp
    then have dr: "drop n (entries c) = drop n (butlast (entries c)) @ [last (entries c)]"
      using ne by simp
    have tk: "take n (butlast (entries c)) = take n (entries c)"
      using nlt by (simp add: take_butlast)
    have z: "n = 0 \<longrightarrow> entries c = []
               \<or> \<not> weightOf W (Value (snd (hd (entries c)))) \<le> maxWeight c"
    proof
      assume n0: "n = 0"
      show "entries c = [] \<or> \<not> weightOf W (Value (snd (hd (entries c)))) \<le> maxWeight c"
      proof (cases "entries c1 = []")
        case True
        with b1 ne obtain x where x: "entries c = [x]"
          by (metis append_butlast_last_id append_Nil)
        with occ have "occupiedWeight c = weightOf W (Value (snd x))"
          by (simp add: sumWeights_def)
        with \<open>occupiedWeight c > maxWeight c\<close> x show ?thesis by simp
      next
        case False
        with z' n0 have "\<not> weightOf W (Value (snd (hd (entries c1)))) \<le> maxWeight c1" by simp
        moreover have "hd (entries c1) = hd (entries c)"
          using False b1 by (cases "entries c") (auto split: if_splits)
        ultimately show ?thesis using m1 by simp
      qed
    qed
    have res: "evictLoop W c ev
                 = Inr (ev @ rev (map (\<lambda>x. Value (snd x)) (drop n (entries c))), c')"
      unfolding lp r by (simp add: b1 dr)
    have "entries c' = take n (entries c)" using t' b1 tk by simp
    with res i' le' m' m1 nlt z show ?thesis
      by (intro exI[of _ n] exI[of _ c']) simp
  qed
qed

lemma setValue_front:
  assumes "(e, old) \<in> set l"
  shows "MoveToFront (setValue l e en) e = (e, en) # Remove l e"
proof -
  have "map_of (map (\<lambda>x. if fst x = e then (e, en) else x) l) e = Some en"
    using assms by (induction l) auto
  then have a: "elemAt (setValue l e en) e = Some en"
    by (simp add: elemAt_def setValue_def)
  have "filter (\<lambda>x. fst x \<noteq> e) (map (\<lambda>x. if fst x = e then (e, en) else x) l)
          = filter (\<lambda>x. fst x \<noteq> e) l"
    by (induction l) auto
  then have "Remove (setValue l e en) e = Remove l e"
    by (simp add: Remove_def setValue_def)
  with a show ?thesis by (simp add: MoveToFront_def)
qed

lemma cache_ok_push:
  assumes ok: "cache_ok c" and ix: "index c k = None" and v: "val \<noteq> None"
  shows "cache_ok (c\<lparr>entries := (nextElem c, \<lparr>Key = k, Value = val\<rparr>) # entries c,
                     index := (index c)(k \<mapsto> nextElem c),
                     occupiedWeight := w,
                     nextElem := Suc (nextElem c)\<rparr>)"
    (is "cache_ok ?c1")
  unfolding cache_ok_def
proof (intro conjI allI impI)
  have lt: "\<And>x. x \<in> set (entries c) \<Longrightarrow> fst x < nextElem c"
    using ok by (auto simp: cache_ok_def list_all_iff)
  then have "nextElem c \<notin> fst ` set (entries c)" by fastforce
  moreover have "distinct (map fst (entries c))" using ok by (simp add: cache_ok_def)
  ultimately show "distinct (map fst (entries ?c1))" by simp
  show "list_all (\<lambda>x. fst x < nextElem ?c1 \<and> Value (snd x) \<noteq> None
                      \<and> index ?c1 (Key (snd x)) = Some (fst x)) (entries ?c1)"
    unfolding list_all_iff
  proof
    fix x assume "x \<in> set (entries ?c1)"
    then consider "x = (nextElem c, \<lparr>Key = k, Value = val\<rparr>)" | "x \<in> set (entries c)"
      by auto
    then show "fst x < nextElem ?c1 \<and> Value (snd x) \<noteq> None
                 \<and> index ?c1 (Key (snd x)) = Some (fst x)"
    proof cases
      case 1
      then show ?thesis using v by simp
    next
      case 2
      then have m: "(fst x, snd x) \<in> set (entries c)" by simp
      from cache_ok_elem[OF ok m] ix have "Key (snd x) \<noteq> k" by auto
      with cache_ok_elem[OF ok m] show ?thesis by simp
    qed
  qed
next
  fix k' a assume h: "index ?c1 k' = Some a"
  show "map_option Key (elemAt (entries ?c1) a) = Some k'"
  proof (cases "k' = k")
    case True
    with h show ?thesis by (simp add: elemAt_def)
  next
    case False
    with h have ixk: "index c k' = Some a" by simp
    from cache_ok_index[OF ok ixk] obtain en where m: "(a, en) \<in> set (entries c)"
      and ke: "Key en = k'" by blast
    from cache_ok_elem(1)[OF ok m] have "a \<noteq> nextElem c" by simp
    moreover from ok ixk have "map_option Key (elemAt (entries c) a) = Some k'"
      by (simp add: cache_ok_def)
    ultimately show ?thesis by (simp add: elemAt_def)
  qed
qed

lemma cache_ok_update:
  assumes ok: "cache_ok c" and ix: "index c k = Some e" and v: "val \<noteq> None"
  shows "cache_ok (c\<lparr>occupiedWeight := w,
                     entries := (e, \<lparr>Key = k, Value = val\<rparr>) # Remove (entries c) e\<rparr>)"
    (is "cache_ok ?c1")
  unfolding cache_ok_def
proof (intro conjI allI impI)
  have d: "distinct (map fst (entries c))" using ok by (simp add: cache_ok_def)
  from cache_ok_index[OF ok ix] obtain old where old: "(e, old) \<in> set (entries c)"
    and ko: "Key old = k" by blast
  have sub: "set (Remove (entries c) e) \<subseteq> set (entries c)" by (auto simp: Remove_def)
  have "e \<notin> fst ` set (Remove (entries c) e)" by (auto simp: Remove_def)
  moreover have "distinct (map fst (Remove (entries c) e))"
    using d by (simp add: Remove_def distinct_map_filter)
  ultimately show d1: "distinct (map fst (entries ?c1))" by simp
  show "list_all (\<lambda>x. fst x < nextElem ?c1 \<and> Value (snd x) \<noteq> None
                      \<and> index ?c1 (Key (snd x)) = Some (fst x)) (entries ?c1)"
    unfolding list_all_iff
  proof
    fix x assume "x \<in> set (entries ?c1)"
    then consider "x = (e, \<lparr>Key = k, Value = val\<rparr>)" | "x \<in> set (entries c)"
      using sub by auto
    then show "fst x < nextElem ?c1 \<and> Value (snd x) \<noteq> None
                 \<and> index ?c1 (Key (snd x)) = Some (fst x)"
    proof cases
      case 1
      then show ?thesis using v ix cache_ok_elem(1)[OF ok old] by simp
    next
      case 2
      then have m: "(fst x, snd x) \<in> set (entries c)" by simp
      from cache_ok_elem[OF ok m] show ?thesis by simp
    qed
  qed
  fix k' a assume h: "index ?c1 k' = Some a"
  then have ixk: "index c k' = Some a" by simp
  from cache_ok_index[OF ok ixk] obtain en where m: "(a, en) \<in> set (entries c)"
    and ke: "Key en = k'" by blast
  show "map_option Key (elemAt (entries ?c1) a) = Some k'"
  proof (cases "a = e")
    case True
    with m old d have "en = old" by (meson eq_key_imp_eq_value)
    with ke ko True show ?thesis by (simp add: elemAt_def)
  next
    case False
    with m have "(a, en) \<in> set (entries ?c1)" by (simp add: Remove_def)
    with d1 have "elemAt (entries ?c1) a = Some en" by (simp only: elemAt_iff)
    with ke show ?thesis by simp
  qed
qed

lemma evict_after:
  assumes inv1: "cache_inv W c1" and L: "map snd (entries c1) = new # rest"
  shows "\<exists>n c'. evictLoop W c1 [] = Inr (rev (map Value (drop n (new # rest))), c')
           \<and> cache_inv W c' \<and> occupiedWeight c' \<le> maxWeight c'
           \<and> maxWeight c' = maxWeight c1
           \<and> map snd (entries c') = take n (new # rest)
           \<and> (weightOf W (Value new) \<le> maxWeight c1 \<longrightarrow> 0 < n)"
proof -
  from evictLoop_ok[OF inv1, of "[]"] obtain n c' where
    r: "evictLoop W c1 [] = Inr ([] @ rev (map (\<lambda>x. Value (snd x)) (drop n (entries c1))), c')"
    and i': "cache_inv W c'" and le': "occupiedWeight c' \<le> maxWeight c'"
    and m': "maxWeight c' = maxWeight c1" and t': "entries c' = take n (entries c1)"
    and z': "n = 0 \<longrightarrow> entries c1 = []
               \<or> \<not> weightOf W (Value (snd (hd (entries c1)))) \<le> maxWeight c1"
    by (elim exE conjE)
  have "map (\<lambda>x. Value (snd x)) (drop n (entries c1)) = map Value (drop n (map snd (entries c1)))"
    by (simp add: drop_map)
  with r L have res: "evictLoop W c1 [] = Inr (rev (map Value (drop n (new # rest))), c')"
    by simp
  have "map snd (entries c') = take n (map snd (entries c1))"
    unfolding t' by (simp add: take_map)
  with L have tk: "map snd (entries c') = take n (new # rest)" by simp
  from L have ne: "entries c1 \<noteq> []" by auto
  from L have "snd (hd (entries c1)) = new" by (cases "entries c1") auto
  with ne z' have "weightOf W (Value new) \<le> maxWeight c1 \<longrightarrow> 0 < n"
    by auto
  with res i' le' m' tk show ?thesis by (intro exI[of _ n] exI[of _ c']) simp
qed

lemma Insert_ok:
  assumes inv: "cache_inv W c"
  shows "\<exists>n c'. Insert W c k (Some v)
                  = Inr (rev (map Value (drop n (\<lparr>Key = k, Value = Some v\<rparr>
                           # filter (\<lambda>en. Key en \<noteq> k) (map snd (entries c))))), c')
           \<and> cache_inv W c' \<and> occupiedWeight c' \<le> maxWeight c'
           \<and> maxWeight c' = maxWeight c
           \<and> map snd (entries c') = take n (\<lparr>Key = k, Value = Some v\<rparr>
                           # filter (\<lambda>en. Key en \<noteq> k) (map snd (entries c)))
           \<and> (W v \<le> maxWeight c \<longrightarrow> 0 < n)"
proof -
  let ?new = "\<lparr>Key = k, Value = Some v\<rparr>"
  let ?rest = "filter (\<lambda>en. Key en \<noteq> k) (map snd (entries c))"
  from inv have ok: "cache_ok c" and occ: "occupiedWeight c = sumWeights W (entries c)"
    by (simp_all add: cache_inv_def)
  have d: "distinct (map fst (entries c))" using ok by (simp add: cache_ok_def)
  have w: "weightOf W (Value ?new) = W v" by (simp add: weightOf_def)
  show ?thesis
  proof (cases "index c k")
    case None
    define c1 where "c1 = c\<lparr>entries := (nextElem c, ?new) # entries c,
                             index := (index c)(k \<mapsto> nextElem c),
                             occupiedWeight := occupiedWeight c + W v,
                             nextElem := Suc (nextElem c)\<rparr>"
    have i: "Insert W c k (Some v) = evictLoop W c1 []"
      using None by (simp add: Insert_def c1_def Let_def)
    have ok1: "cache_ok c1" unfolding c1_def by (rule cache_ok_push[OF ok None]) simp
    have e1: "entries c1 = (nextElem c, ?new) # entries c" by (simp add: c1_def)
    have o1: "occupiedWeight c1 = occupiedWeight c + W v" by (simp add: c1_def)
    have m1: "maxWeight c1 = maxWeight c" by (simp add: c1_def)
    have "occupiedWeight c1 = sumWeights W (entries c1)"
      unfolding e1 o1 occ by (simp add: sumWeights_def weightOf_def)
    with ok1 have inv1: "cache_inv W c1" by (simp add: cache_inv_def)
    have "\<And>x. x \<in> set (entries c) \<Longrightarrow> Key (snd x) \<noteq> k"
    proof -
      fix x assume "x \<in> set (entries c)"
      then have "(fst x, snd x) \<in> set (entries c)" by simp
      from cache_ok_elem(3)[OF ok this] None show "Key (snd x) \<noteq> k" by auto
    qed
    then have "?rest = map snd (entries c)"
      by (simp add: filter_id_conv)
    then have L: "map snd (entries c1) = ?new # ?rest" unfolding e1 by simp
    show ?thesis using evict_after[OF inv1 L] unfolding i m1 w .
  next
    case (Some e)
    from cache_ok_index[OF ok Some] obtain old where old: "(e, old) \<in> set (entries c)"
      and ko: "Key old = k" by (elim exE conjE)
    from cache_ok_elem(2)[OF ok old] obtain ov where ov: "Value old = Some ov" by auto
    have ea: "elemAt (entries c) e = Some old" using d old by (simp add: elemAt_iff)
    define c1 where "c1 = c\<lparr>occupiedWeight := occupiedWeight c - W ov + W v,
                             entries := (e, ?new) # Remove (entries c) e\<rparr>"
    have i: "Insert W c k (Some v) = evictLoop W c1 []"
      using Some ea ov setValue_front[OF old, of ?new]
      by (simp add: Insert_def c1_def callWeight_def)
    have ok1: "cache_ok c1" unfolding c1_def by (rule cache_ok_update[OF ok Some]) simp
    have e1: "entries c1 = (e, ?new) # Remove (entries c) e" by (simp add: c1_def)
    have o1: "occupiedWeight c1 = occupiedWeight c - W ov + W v" by (simp add: c1_def)
    have m1: "maxWeight c1 = maxWeight c" by (simp add: c1_def)
    have "sumWeights W (Remove (entries c) e) = sumWeights W (entries c) - weightOf W (Value old)"
      unfolding Remove_def by (rule sumWeights_remove[OF d old])
    then have "sumWeights W (entries c1) = W v + (occupiedWeight c - W ov)"
      unfolding e1 occ using ov by (simp add: sumWeights_def weightOf_def)
    then have "occupiedWeight c1 = sumWeights W (entries c1)"
      unfolding o1 by simp
    with ok1 have inv1: "cache_inv W c1" by (simp add: cache_inv_def)
    have L: "map snd (entries c1) = ?new # ?rest"
      unfolding e1 by (simp add: Remove_by_key[OF ok Some] filter_map comp_def)
    show ?thesis using evict_after[OF inv1 L] unfolding i m1 w .
  qed
qed

subsection \<open>Erase\<close>

text \<open>
  C1. Erase of a key that is present should remove the entry, lower the occupied weight
  by the weight of the removed value and return that value. On the cache that holds the
  single key A, Erase of A instead panics with a nil dereference: the weight is read
  through the result variable, which is still nil.
\<close>

theorem Erase_present_panics:
  "\<exists>c. Insert weight4 (New 10) ''A'' (Some ''a'') = Inr ([], c)
       \<and> index c ''A'' = Some 0
       \<and> Erase weight4 c ''A'' = Inl NilDereference"
  by (simp add: cache_defs weight4_def)

subsection \<open>Construction\<close>

text \<open>
  C3, as the claim has it, fails: New 0 returns a cache, and the cache works. A value of
  weight 0 inserted into it is stored.
\<close>

theorem New_zero_usable:
  "Insert weight0 (New 0) ''A'' (Some ''a'')
     = Inr ([], \<lparr>maxWeight = 0, occupiedWeight = 0,
                 entries = [(0, \<lparr>Key = ''A'', Value = Some ''a''\<rparr>)],
                 index = Map.empty(''A'' \<mapsto> 0), nextElem = 1\<rparr>)"
  by (simp add: cache_defs weight0_def)

text \<open>
  C3, amended. New checks nothing; the requirement that maxWeight is positive is checked
  by CheckInvariants alone, which panics on the cache New returns exactly when maxWeight
  is zero.
\<close>

theorem CheckInvariants_New:
  "CheckInvariants (New mw) = (if mw > 0 then Inr () else Inl InvalidMaxWeight)"
  by (simp add: CheckInvariants_def New_def)

subsection \<open>Least recently used first\<close>

text \<open>
  C4. With maxWeight 10 and values of weight 4 inserted under A, B and C in this order,
  the insertion of C evicts exactly A and returns it, and B and C stay. With a LookUp
  of A between the insertions of B and C, the insertion of C evicts exactly B and
  returns it, and A and C stay.
\<close>

theorem lru_order:
  "\<exists>c2 c3 c2' c3'.
     runOps weight4 (New 10) [OpInsert ''A'' (Some ''a''), OpInsert ''B'' (Some ''b'')] = Inr c2
   \<and> Insert weight4 c2 ''C'' (Some ''c'') = Inr ([Some ''a''], c3)
   \<and> map snd (entries c3)
       = [\<lparr>Key = ''C'', Value = Some ''c''\<rparr>, \<lparr>Key = ''B'', Value = Some ''b''\<rparr>]
   \<and> runOps weight4 (New 10)
        [OpInsert ''A'' (Some ''a''), OpInsert ''B'' (Some ''b''), OpLookUp ''A''] = Inr c2'
   \<and> Insert weight4 c2' ''C'' (Some ''c'') = Inr ([Some ''b''], c3')
   \<and> map snd (entries c3')
       = [\<lparr>Key = ''C'', Value = Some ''c''\<rparr>, \<lparr>Key = ''A'', Value = Some ''a''\<rparr>]"
  by (simp add: cache_defs weight4_def)

lemma sumWeights_total: "sumWeights W l = word_of_nat (totalWeight W l)"
  by (induction l) (simp_all add: sumWeights_def totalWeight_def)

lemma unat_sumWeights: "unat (sumWeights W l) = totalWeight W l mod 2 ^ 64"
  by (simp add: sumWeights_total unat_of_nat)

lemma LookUp_ok:
  assumes inv: "cache_inv W c"
  shows "\<exists>r c'. LookUp c k = Inr (r, c') \<and> cache_inv W c'
           \<and> occupiedWeight c' = occupiedWeight c \<and> maxWeight c' = maxWeight c
           \<and> (index c k = None \<longrightarrow> r = None \<and> c' = c)
           \<and> (index c k \<noteq> None \<longrightarrow> r \<noteq> None
                \<and> map snd (entries c')
                    = \<lparr>Key = k, Value = r\<rparr> # filter (\<lambda>en. Key en \<noteq> k) (map snd (entries c)))"
proof (cases "index c k")
  case None
  then show ?thesis using inv by (simp add: LookUp_def)
next
  case (Some e)
  from inv have ok: "cache_ok c" and occ: "occupiedWeight c = sumWeights W (entries c)"
    by (simp_all add: cache_inv_def)
  have d: "distinct (map fst (entries c))" using ok by (simp add: cache_ok_def)
  from cache_ok_index[OF ok Some] obtain en where en: "(e, en) \<in> set (entries c)"
    and ke: "Key en = k" by (elim exE conjE)
  from cache_ok_elem(2)[OF ok en] have vn: "Value en \<noteq> None" .
  have ea: "elemAt (entries c) e = Some en" using d en by (simp add: elemAt_iff)
  have enr: "en = \<lparr>Key = k, Value = Value en\<rparr>" using ke by simp
  define c' where "c' = c\<lparr>occupiedWeight := occupiedWeight c,
                           entries := (e, \<lparr>Key = k, Value = Value en\<rparr>) # Remove (entries c) e\<rparr>"
  have l: "LookUp c k = Inr (Value en, c')"
    using Some ea enr by (simp add: LookUp_def MoveToFront_def c'_def)
  have ok': "cache_ok c'" unfolding c'_def by (rule cache_ok_update[OF ok Some vn])
  have e': "entries c' = (e, en) # Remove (entries c) e" using enr by (simp add: c'_def)
  have "sumWeights W (Remove (entries c) e) = sumWeights W (entries c) - weightOf W (Value en)"
    unfolding Remove_def by (rule sumWeights_remove[OF d en])
  then have "sumWeights W (entries c') = sumWeights W (entries c)"
    unfolding e' by (simp add: sumWeights_def)
  then have inv': "cache_inv W c'" using ok' occ by (simp add: cache_inv_def c'_def)
  have "map snd (entries c')
          = \<lparr>Key = k, Value = Value en\<rparr> # filter (\<lambda>en. Key en \<noteq> k) (map snd (entries c))"
    by (simp add: c'_def Remove_by_key[OF ok Some] filter_map comp_def)
  with l inv' vn Some show ?thesis
    by (intro exI[of _ "Value en"] exI[of _ c']) (simp add: c'_def)
qed

lemma Erase_returns:
  assumes "Erase W c k = Inr (r, c')"
  shows "index c k = None \<and> r = None \<and> c' = c"
  using assms
  by (auto simp: Erase_def callWeight_def split: option.splits)

lemma applyOp_inv:
  assumes "applyOp W c x = Inr c'" and "cache_inv W c" and "occupiedWeight c \<le> maxWeight c"
  shows "cache_inv W c' \<and> occupiedWeight c' \<le> maxWeight c' \<and> maxWeight c' = maxWeight c"
proof (cases x)
  case (OpInsert k val)
  show ?thesis
  proof (cases val)
    case None
    with assms(1) OpInsert show ?thesis by (simp add: Insert_def)
  next
    case (Some v)
    from Insert_ok[OF assms(2), of k v] obtain ev c1 where
      i: "Insert W c k (Some v) = Inr (ev, c1)" and r: "cache_inv W c1"
      "occupiedWeight c1 \<le> maxWeight c1" "maxWeight c1 = maxWeight c"
      by (elim exE conjE)
    from assms(1) OpInsert Some i have "c' = c1" by simp
    with r show ?thesis by simp
  qed
next
  case (OpErase k)
  with assms(1) obtain r where "Erase W c k = Inr (r, c')"
    by (cases "Erase W c k") auto
  from Erase_returns[OF this] assms(2,3) show ?thesis by simp
next
  case (OpLookUp k)
  from LookUp_ok[OF assms(2), of k] obtain r c1 where
    l: "LookUp c k = Inr (r, c1)" and r: "cache_inv W c1"
    "occupiedWeight c1 = occupiedWeight c" "maxWeight c1 = maxWeight c"
    by (elim exE conjE)
  from assms(1) OpLookUp l have "c' = c1" by simp
  with r assms(3) show ?thesis by simp
qed

lemma runOps_inv:
  "runOps W c ops = Inr c' \<Longrightarrow> cache_inv W c \<Longrightarrow> occupiedWeight c \<le> maxWeight c \<Longrightarrow>
   cache_inv W c' \<and> occupiedWeight c' \<le> maxWeight c' \<and> maxWeight c' = maxWeight c"
proof (induction ops arbitrary: c)
  case Nil
  then show ?case by simp
next
  case (Cons x xs)
  from Cons.prems(1) obtain c1 where a: "applyOp W c x = Inr c1" and r: "runOps W c1 xs = Inr c'"
    by (cases "applyOp W c x") auto
  from applyOp_inv[OF a Cons.prems(2,3)] have i1: "cache_inv W c1"
    and l1: "occupiedWeight c1 \<le> maxWeight c1" and m1: "maxWeight c1 = maxWeight c"
    by auto
  from Cons.IH[OF r i1 l1] m1 show ?case by auto
qed

lemma runOps_New_inv:
  assumes "runOps W (New mw) ops = Inr c"
  shows "cache_inv W c \<and> occupiedWeight c \<le> maxWeight c \<and> maxWeight c = mw"
proof -
  have "occupiedWeight (New mw) \<le> maxWeight (New mw)" by (simp add: New_def)
  from runOps_inv[OF assms cache_inv_New this] show ?thesis by (auto simp: New_def)
qed

text \<open>On a cache built by the operations, Insert of a value that is not nil returns.\<close>

lemma Insert_returns:
  assumes "runOps W (New mw) ops = Inr c"
  shows "\<exists>ev c'. Insert W c k (Some v) = Inr (ev, c')"
proof -
  from runOps_New_inv[OF assms] have "cache_inv W c" by simp
  from Insert_ok[OF this, of k v] show ?thesis by blast
qed

text \<open>On such a cache, Erase of any key that is present panics.\<close>

lemma Erase_present:
  assumes "runOps W (New mw) ops = Inr c" and "index c k \<noteq> None"
  shows "Erase W c k = Inl NilDereference"
proof -
  from runOps_New_inv[OF assms(1)] have ok: "cache_ok c" by (simp add: cache_inv_def)
  from assms(2) obtain e where e: "index c k = Some e" by auto
  from cache_ok_index[OF ok e] obtain en where "(e, en) \<in> set (entries c)" by blast
  moreover have "distinct (map fst (entries c))" using ok by (simp add: cache_ok_def)
  ultimately have "elemAt (entries c) e = Some en" by (simp add: elemAt_iff)
  with e show ?thesis by (simp add: Erase_def callWeight_def)
qed

subsection \<open>The weight invariant\<close>

text \<open>
  C2, as the claim has it, fails where the weights wrap around. With maxWeight
  \<open>2^64 - 1\<close>, a value of weight \<open>2^64 - 1\<close> under A and a value of weight 1 under B,
  both entries are present, their weights sum to \<open>2^64\<close>, and occupiedWeight is 0.
\<close>

theorem weight_sum_wraps:
  "(0::uint64) < - 1
   \<and> runOps weightSelf (New (- 1)) [OpInsert ''A'' (Some (- 1)), OpInsert ''B'' (Some 1)]
       = Inr wrappedCache
   \<and> unat (occupiedWeight wrappedCache) = 0
   \<and> totalWeight weightSelf (entries wrappedCache) = 2 ^ 64
   \<and> unat (occupiedWeight wrappedCache) \<noteq> totalWeight weightSelf (entries wrappedCache)"
proof -
  have a: "(0::uint64) < - 1" by (simp add: word_gt_0)
  have b: "runOps weightSelf (New (- 1)) [OpInsert ''A'' (Some (- 1)), OpInsert ''B'' (Some 1)]
             = Inr wrappedCache"
    by (simp add: cache_defs weightSelf_def wrappedCache_def)
  have c: "unat (occupiedWeight wrappedCache) = 0" by (simp add: wrappedCache_def)
  have "unat (- 1 :: uint64) = 2 ^ 64 - 1"
    by (simp add: unsigned_minus_1_eq_mask mask_eq_exp_minus_1)
  then have d: "totalWeight weightSelf (entries wrappedCache) = 2 ^ 64"
    by (simp add: wrappedCache_def totalWeight_def weightOf_def weightSelf_def)
  from a b c d show ?thesis by simp
qed

text \<open>
  C2, amended. After every sequence of Insert, Erase and LookUp operations on a new
  cache that runs without a panic (every prefix of such a sequence is one too),
  occupiedWeight is the sum of the weights of the entries present modulo \<open>2^64\<close>, which
  is the sum itself whenever that is below \<open>2^64\<close>, and occupiedWeight is at most
  maxWeight.
\<close>

theorem weight_invariant:
  assumes "runOps W (New mw) ops = Inr c"
  shows "unat (occupiedWeight c) = totalWeight W (entries c) mod 2 ^ 64
         \<and> occupiedWeight c \<le> maxWeight c"
proof -
  from runOps_New_inv[OF assms] have "occupiedWeight c = sumWeights W (entries c)"
    and "occupiedWeight c \<le> maxWeight c" by (auto simp: cache_inv_def)
  then show ?thesis by (simp add: unat_sumWeights)
qed

theorem weight_invariant_witness:
  "\<exists>c. runOps weight4 (New 10)
          [OpInsert ''A'' (Some ''a''), OpInsert ''B'' (Some ''b''), OpErase ''Z'',
           OpInsert ''C'' (Some ''c'')] = Inr c
      \<and> map snd (entries c)
          = [\<lparr>Key = ''C'', Value = Some ''c''\<rparr>, \<lparr>Key = ''B'', Value = Some ''b''\<rparr>]
      \<and> occupiedWeight c = 8
      \<and> unat (occupiedWeight c) = totalWeight weight4 (entries c) mod 2 ^ 64
      \<and> occupiedWeight c \<le> maxWeight c"
proof -
  let ?c = "\<lparr>maxWeight = 10, occupiedWeight = 8,
            entries = [(Suc (Suc 0), \<lparr>Key = ''C'', Value = Some ''c''\<rparr>),
                       (Suc 0, \<lparr>Key = ''B'', Value = Some ''b''\<rparr>)],
            index = Map.empty(''B'' \<mapsto> Suc 0, ''C'' \<mapsto> Suc (Suc 0)),
            nextElem = Suc (Suc (Suc 0))\<rparr> :: string Cache"
  have r: "runOps weight4 (New 10)
     [OpInsert ''A'' (Some ''a''), OpInsert ''B'' (Some ''b''), OpErase ''Z'',
      OpInsert ''C'' (Some ''c'')] = Inr ?c"
    by (simp add: cache_defs weight4_def)
  from weight_invariant[OF r] r show ?thesis by simp
qed

subsection \<open>Progress writes of a download job\<close>



subsection \<open>Gob encoding and decoding\<close>

lemma cache_ok_distinct_keys:
  assumes ok: "cache_ok c"
  shows "distinct (map (\<lambda>x. Key (snd x)) (entries c))"
proof -
  have d: "distinct (map fst (entries c))" using ok by (simp add: cache_ok_def)
  then have dl: "distinct (entries c)" by (simp add: distinct_map)
  have "inj_on (\<lambda>x. Key (snd x)) (set (entries c))"
  proof (rule inj_onI)
    fix x y assume x: "x \<in> set (entries c)" and y: "y \<in> set (entries c)"
      and k: "Key (snd x) = Key (snd y)"
    from x have "(fst x, snd x) \<in> set (entries c)" by simp
    from cache_ok_elem(3)[OF ok this] have ix: "index c (Key (snd x)) = Some (fst x)" .
    from cache_ok_fst_key[OF ok ix y] k have "fst y = fst x" by simp
    with d x y show "x = y" by (metis eq_key_imp_eq_value prod.collapse)
  qed
  with dl show ?thesis by (simp add: distinct_map)
qed

lemma find_unique:
  "y \<in> set l \<Longrightarrow> P y \<Longrightarrow> \<forall>x\<in>set l. P x \<longrightarrow> x = y \<Longrightarrow> find P l = Some y"
proof (induction l)
  case Nil
  then show ?case by simp
next
  case (Cons a l)
  show ?case
  proof (cases "P a")
    case True
    with Cons.prems(3) have "a = y" by simp
    with True show ?thesis by simp
  next
    case False
    with Cons.prems(1,2) have "y \<in> set l" by auto
    moreover from Cons.prems(3) have "\<forall>x\<in>set l. P x \<longrightarrow> x = y" by simp
    ultimately have "find P l = Some y" using Cons.IH Cons.prems(2) by blast
    with False show ?thesis by simp
  qed
qed

lemma LookUp_value:
  assumes ok: "cache_ok c"
  shows "\<exists>c'. LookUp c k
            = Inr (case find (\<lambda>en. Key en = k) (map snd (entries c)) of
                     None \<Rightarrow> None | Some en \<Rightarrow> Value en, c')"
proof (cases "index c k")
  case None
  have "\<And>x. x \<in> set (entries c) \<Longrightarrow> Key (snd x) \<noteq> k"
  proof -
    fix x assume "x \<in> set (entries c)"
    then have "(fst x, snd x) \<in> set (entries c)" by simp
    from cache_ok_elem(3)[OF ok this] None show "Key (snd x) \<noteq> k" by auto
  qed
  then have "find (\<lambda>en. Key en = k) (map snd (entries c)) = None"
    by (auto simp: find_None_iff)
  with None show ?thesis by (simp add: LookUp_def)
next
  case (Some e)
  have d: "distinct (map fst (entries c))" using ok by (simp add: cache_ok_def)
  from cache_ok_index[OF ok Some] obtain en where en: "(e, en) \<in> set (entries c)"
    and ke: "Key en = k" by (elim exE conjE)
  have ea: "elemAt (entries c) e = Some en" using d en by (simp add: elemAt_iff)
  have "\<And>x. x \<in> set (entries c) \<Longrightarrow> Key (snd x) = k \<Longrightarrow> snd x = en"
  proof -
    fix x assume x: "x \<in> set (entries c)" and k: "Key (snd x) = k"
    from cache_ok_fst_key[OF ok Some x] k have "fst x = e" by simp
    with x have "(e, snd x) \<in> set (entries c)" by (cases x) auto
    with en d show "snd x = en" by (meson eq_key_imp_eq_value)
  qed
  then have u: "\<forall>y\<in>set (map snd (entries c)). Key y = k \<longrightarrow> y = en"
    by (simp add: image_iff)
  from en have "en \<in> set (map snd (entries c))" by force
  then have "find (\<lambda>en. Key en = k) (map snd (entries c)) = Some en"
    using ke u by (rule find_unique)
  with Some ea show ?thesis by (simp add: LookUp_def)
qed

lemma cache_ok_pushback:
  assumes ok: "cache_ok c" and ix: "index c (Key en) = None" and v: "Value en \<noteq> None"
  shows "cache_ok (c\<lparr>entries := entries c @ [(nextElem c, en)],
                     index := (index c)(Key en \<mapsto> nextElem c),
                     nextElem := Suc (nextElem c)\<rparr>)"
    (is "cache_ok ?c1")
proof -
  have lt: "\<And>x. x \<in> set (entries c) \<Longrightarrow> fst x < nextElem c"
    using ok by (auto simp: cache_ok_def list_all_iff)
  then have nin: "nextElem c \<notin> fst ` set (entries c)" by fastforce
  show ?thesis
  unfolding cache_ok_def
proof (intro conjI allI impI)
  have "distinct (map fst (entries c))" using ok by (simp add: cache_ok_def)
  with nin show "distinct (map fst (entries ?c1))" by simp
  show "list_all (\<lambda>x. fst x < nextElem ?c1 \<and> Value (snd x) \<noteq> None
                      \<and> index ?c1 (Key (snd x)) = Some (fst x)) (entries ?c1)"
    unfolding list_all_iff
  proof
    fix x assume "x \<in> set (entries ?c1)"
    then consider "x = (nextElem c, en)" | "x \<in> set (entries c)"
      by auto
    then show "fst x < nextElem ?c1 \<and> Value (snd x) \<noteq> None
                 \<and> index ?c1 (Key (snd x)) = Some (fst x)"
    proof cases
      case 1
      then show ?thesis using v by simp
    next
      case 2
      then have m: "(fst x, snd x) \<in> set (entries c)" by simp
      from cache_ok_elem[OF ok m] ix have "Key (snd x) \<noteq> Key en" by auto
      with cache_ok_elem[OF ok m] show ?thesis by simp
    qed
  qed
next
  fix k' a assume h: "index ?c1 k' = Some a"
  show "map_option Key (elemAt (entries ?c1) a) = Some k'"
  proof (cases "k' = Key en")
    case True
    with h have "a = nextElem c" by simp
    moreover from nin have "map_of (entries c) (nextElem c) = None"
      by (simp add: map_of_eq_None_iff)
    ultimately show ?thesis using True by (simp add: elemAt_def map_add_def)
  next
    case False
    with h have ixk: "index c k' = Some a" by simp
    from ok ixk have "map_option Key (elemAt (entries c) a) = Some k'"
      by (simp add: cache_ok_def)
    then obtain e' where "map_of (entries c) a = Some e'" and "Key e' = k'"
      by (auto simp: elemAt_def)
    then show ?thesis by (simp add: elemAt_def map_add_def)
  qed
qed
qed

lemma storeEach_ok:
  "cache_ok c \<Longrightarrow> distinct (map Key es) \<Longrightarrow>
   \<forall>en\<in>set es. index c (Key en) = None \<and> Value en \<noteq> None \<Longrightarrow>
   cache_ok (storeEach c es)
   \<and> map snd (entries (storeEach c es)) = map snd (entries c) @ es
   \<and> maxWeight (storeEach c es) = maxWeight c"
proof (induction es arbitrary: c)
  case Nil
  then show ?case by simp
next
  case (Cons en es)
  let ?c1 = "c\<lparr>entries := entries c @ [(nextElem c, en)],
                index := (index c)(Key en \<mapsto> nextElem c),
                nextElem := Suc (nextElem c)\<rparr>"
  from Cons.prems have ix: "index c (Key en) = None" and v: "Value en \<noteq> None" by simp_all
  have ok1: "cache_ok ?c1" by (rule cache_ok_pushback[OF Cons.prems(1) ix v])
  from Cons.prems(2) have d: "distinct (map Key es)" and nk: "Key en \<notin> Key ` set es" by simp_all
  have "\<forall>e\<in>set es. index ?c1 (Key e) = None \<and> Value e \<noteq> None"
  proof
    fix e assume e: "e \<in> set es"
    have "Key e \<noteq> Key en"
    proof
      assume "Key e = Key en"
      then have "Key en = Key e" by simp
      then have "Key en \<in> Key ` set es" using e by (rule image_eqI)
      with nk show False by simp
    qed
    with Cons.prems(3) e show "index ?c1 (Key e) = None \<and> Value e \<noteq> None" by simp
  qed
  from Cons.IH[OF ok1 d this] show ?case by simp
qed

lemma GobDecode_GobEncode:
  assumes ok: "cache_ok c" and reg: "registered reg (map snd (entries c))"
  shows "\<exists>b c'. GobEncode reg c = Inr b \<and> GobDecode reg c0 b = (None, c')
           \<and> cache_ok c'
           \<and> maxWeight c' = maxWeight c \<and> occupiedWeight c' = occupiedWeight c
           \<and> map snd (entries c') = map snd (entries c)"
proof -
  let ?es = "map snd (entries c)"
  let ?b = "[GobUint64 (maxWeight c), GobUint64 (occupiedWeight c), GobEntrySlice ?es]"
  let ?c' = "(storeEach (New (maxWeight c)) ?es)\<lparr>occupiedWeight := occupiedWeight c\<rparr>"
  have e: "GobEncode reg c = Inr ?b"
    using reg by (simp add: GobEncode_def encodeUint64_def encodeEntries_def)
  have dec: "GobDecode reg c0 ?b = (None, ?c')"
    using reg by (simp add: GobDecode_def)
  have dk: "distinct (map Key ?es)"
    using cache_ok_distinct_keys[OF ok] by (simp add: comp_def)
  have "\<forall>en\<in>set ?es. index (New (maxWeight c)) (Key en) = None \<and> Value en \<noteq> None"
  proof
    fix en assume "en \<in> set ?es"
    then obtain a where "(a, en) \<in> set (entries c)" by auto
    from cache_ok_elem(2)[OF ok this]
    show "index (New (maxWeight c)) (Key en) = None \<and> Value en \<noteq> None"
      by (simp add: New_def)
  qed
  from storeEach_ok[OF cache_ok_New dk this]
  have s: "cache_ok (storeEach (New (maxWeight c)) ?es)"
    and m: "map snd (entries (storeEach (New (maxWeight c)) ?es)) = ?es"
    and w: "maxWeight (storeEach (New (maxWeight c)) ?es) = maxWeight c"
    by (simp_all add: New_def)
  from s have ok': "cache_ok ?c'" by (simp add: cache_ok_def)
  from e dec ok' m w show ?thesis
    by (intro exI[of _ ?b] exI[of _ ?c']) simp
qed

text \<open>
  C5. For every cache built by the cache's operations whose values are all of
  registered types, GobEncode returns an encoding, and GobDecode of it, into any
  receiver, returns no error and leaves a cache with the same maxWeight, the same
  occupiedWeight, the same entries in the same recency order, and in which every key
  looks up to the same value.
\<close>

theorem gob_round_trip:
  assumes "runOps W (New mw) ops = Inr c" and "registered reg (map snd (entries c))"
  shows "\<exists>b c'. GobEncode reg c = Inr b \<and> GobDecode reg c0 b = (None, c')
           \<and> maxWeight c' = maxWeight c \<and> occupiedWeight c' = occupiedWeight c
           \<and> map snd (entries c') = map snd (entries c)
           \<and> (\<forall>k. map_sum id fst (LookUp c' k) = map_sum id fst (LookUp c k))"
proof -
  from runOps_New_inv[OF assms(1)] have ok: "cache_ok c" by (simp add: cache_inv_def)
  from GobDecode_GobEncode[OF ok assms(2), of c0] obtain b c' where
    e: "GobEncode reg c = Inr b" and d: "GobDecode reg c0 b = (None, c')"
    and ok': "cache_ok c'" and m: "maxWeight c' = maxWeight c"
    and o: "occupiedWeight c' = occupiedWeight c"
    and s: "map snd (entries c') = map snd (entries c)"
    by (elim exE conjE)
  have "\<forall>k. map_sum id fst (LookUp c' k) = map_sum id fst (LookUp c k)"
  proof
    fix k
    from LookUp_value[OF ok, of k] LookUp_value[OF ok', of k] s
    show "map_sum id fst (LookUp c' k) = map_sum id fst (LookUp c k)" by auto
  qed
  with e d m o s show ?thesis by (intro exI[of _ b] exI[of _ c']) simp
qed

theorem gob_round_trip_witness:
  "\<exists>c b c'.
      runOps weight4 (New 10)
        [OpInsert ''A'' (Some ''a''), OpInsert ''B'' (Some ''b''), OpLookUp ''A''] = Inr c
    \<and> GobEncode anyType c
        = Inr [GobUint64 10, GobUint64 8,
               GobEntrySlice [\<lparr>Key = ''A'', Value = Some ''a''\<rparr>,
                              \<lparr>Key = ''B'', Value = Some ''b''\<rparr>]]
    \<and> GobEncode anyType c = Inr b
    \<and> GobDecode anyType (New 1) b = (None, c')
    \<and> maxWeight c' = 10 \<and> occupiedWeight c' = 8
    \<and> map snd (entries c') = [\<lparr>Key = ''A'', Value = Some ''a''\<rparr>,
                               \<lparr>Key = ''B'', Value = Some ''b''\<rparr>]
    \<and> map_sum id fst (LookUp c' ''A'') = Inr (Some ''a'')
    \<and> map_sum id fst (LookUp c' ''Z'') = Inr None"
proof -
  let ?c = "\<lparr>maxWeight = 10, occupiedWeight = 8,
             entries = [(0, \<lparr>Key = ''A'', Value = Some ''a''\<rparr>),
                        (Suc 0, \<lparr>Key = ''B'', Value = Some ''b''\<rparr>)],
             index = Map.empty(''A'' \<mapsto> 0, ''B'' \<mapsto> Suc 0),
             nextElem = Suc (Suc 0)\<rparr> :: string Cache"
  have r: "runOps weight4 (New 10)
        [OpInsert ''A'' (Some ''a''), OpInsert ''B'' (Some ''b''), OpLookUp ''A''] = Inr ?c"
    by (simp add: cache_defs weight4_def)
  have g: "registered anyType (map snd (entries ?c))"
    by (simp add: registered_def anyType_def)
  from gob_round_trip[OF r g, of "New 1"] obtain b c' where
    e: "GobEncode anyType ?c = Inr b" and d: "GobDecode anyType (New 1) b = (None, c')"
    and m: "maxWeight c' = maxWeight ?c" and o: "occupiedWeight c' = occupiedWeight ?c"
    and s: "map snd (entries c') = map snd (entries ?c)"
    and l: "\<forall>k. map_sum id fst (LookUp c' k) = map_sum id fst (LookUp ?c k)"
    by (elim exE conjE)
  have e': "GobEncode anyType ?c
        = Inr [GobUint64 10, GobUint64 8,
               GobEntrySlice [\<lparr>Key = ''A'', Value = Some ''a''\<rparr>,
                              \<lparr>Key = ''B'', Value = Some ''b''\<rparr>]]"
    by (simp add: GobEncode_def encodeUint64_def encodeEntries_def registered_def anyType_def)
  have m': "maxWeight c' = 10" using m by simp
  have o': "occupiedWeight c' = 8" using o by simp
  have s': "map snd (entries c') = [\<lparr>Key = ''A'', Value = Some ''a''\<rparr>,
                               \<lparr>Key = ''B'', Value = Some ''b''\<rparr>]" using s by simp
  have "map_sum id fst (LookUp ?c ''A'') = Inr (Some ''a'')" by (simp add: cache_defs)
  with l have la: "map_sum id fst (LookUp c' ''A'') = Inr (Some ''a'')" by simp
  have "map_sum id fst (LookUp ?c ''Z'') = Inr None" by (simp add: cache_defs)
  with l have lz: "map_sum id fst (LookUp c' ''Z'') = Inr None" by simp
  show ?thesis
    by (rule exI[of _ ?c], rule exI[of _ b], rule exI[of _ c'])
       (intro conjI r e' e d m' o' s' la lz)
qed

section \<open>Properties of the download job\<close>

lemma threeSubscribers_eq:
  "threeSubscribers =
     (exampleJob\<lparr>status := \<lparr>Name = DOWNLOADING, Err = None, Offset = 50\<rparr>,
                 subscribers := [\<lparr>notificationC = 0, subscribedOffset = 10\<rparr>,
                                 \<lparr>notificationC = Suc 0, subscribedOffset = 1000\<rparr>,
                                 \<lparr>notificationC = Suc (Suc 0), subscribedOffset = 1000000\<rparr>]\<rparr>,
      \<lparr>chans = Map.empty(0 \<mapsto> \<lparr>buf = [], cap = 1, isClosed = False\<rparr>,
                         Suc 0 \<mapsto> \<lparr>buf = [], cap = 1, isClosed = False\<rparr>,
                         Suc (Suc 0) \<mapsto> \<lparr>buf = [], cap = 1, isClosed = False\<rparr>),
       events = [], nextChan = Suc (Suc (Suc 0))\<rparr>)"
  by (simp add: threeSubscribers_def subscribe_def make_chan_def emptyHeap_def exampleJob_def)

lemma not_in_image: "y \<notin> f ` S \<Longrightarrow> x \<in> S \<Longrightarrow> f x \<noteq> y"
  by blast

lemma notifyLoop_ok:
  "subs_ok h subs \<Longrightarrow>
   \<exists>h'. notifyLoop st subs h = Inr (filter (\<lambda>s. \<not> ready st s) subs, h')
      \<and> events h' = events h @ concat (map (fired st) (filter (ready st) subs))
      \<and> (\<forall>s\<in>set subs. chans h' (notificationC s)
            = (if ready st s then Some \<lparr>buf = [st], cap = 1, isClosed = True\<rparr>
               else chans h (notificationC s)))
      \<and> (\<forall>ch. ch \<notin> notificationC ` set subs \<longrightarrow> chans h' ch = chans h ch)"
proof (induction subs arbitrary: h)
  case Nil
  then show ?case by simp
next
  case (Cons s rest)
  let ?a = "notificationC s"
  from Cons.prems have fresh: "chans h ?a = Some \<lparr>buf = [], cap = 1, isClosed = False\<rparr>"
    and nin: "?a \<notin> notificationC ` set rest"
    and d: "distinct (map notificationC rest)"
    and all: "list_all (\<lambda>s. chans h (notificationC s)
                 = Some \<lparr>buf = [], cap = 1, isClosed = False\<rparr>) rest"
    by (simp_all add: subs_ok_def)
  show ?case
  proof (cases "ready st s")
    case False
    from d all have "subs_ok h rest" by (simp add: subs_ok_def)
    from Cons.IH[OF this] obtain h' where
      r: "notifyLoop st rest h = Inr (filter (\<lambda>s. \<not> ready st s) rest, h')"
      and e: "events h' = events h @ concat (map (fired st) (filter (ready st) rest))"
      and c: "\<forall>s\<in>set rest. chans h' (notificationC s)
            = (if ready st s then Some \<lparr>buf = [st], cap = 1, isClosed = True\<rparr>
               else chans h (notificationC s))"
      and f: "\<forall>ch. ch \<notin> notificationC ` set rest \<longrightarrow> chans h' ch = chans h ch"
      by (elim exE conjE)
    from f nin have "chans h' ?a = chans h ?a" by simp
    with False r e c f show ?thesis by (intro exI[of _ h']) simp
  next
    case True
    define h2 where "h2 = h\<lparr>chans := (chans h)(?a \<mapsto> \<lparr>buf = [st], cap = 1, isClosed = True\<rparr>),
                             events := events h @ [Sent ?a st, Closed ?a]\<rparr>"
    have s1: "send h ?a st
                = Inr (h\<lparr>chans := (chans h)(?a \<mapsto> \<lparr>buf = [st], cap = 1, isClosed = False\<rparr>),
                         events := events h @ [Sent ?a st]\<rparr>)"
      using fresh by (simp add: send_def)
    have s2: "close (h\<lparr>chans := (chans h)(?a \<mapsto> \<lparr>buf = [st], cap = 1, isClosed = False\<rparr>),
                        events := events h @ [Sent ?a st]\<rparr>) ?a = Inr h2"
      by (simp add: close_def h2_def)
    have step: "notifyLoop st (s # rest) h = notifyLoop st rest h2"
      using True s1 s2 by simp
    have "list_all (\<lambda>s. chans h2 (notificationC s)
                 = Some \<lparr>buf = [], cap = 1, isClosed = False\<rparr>) rest"
      unfolding list_all_iff
    proof
      fix x assume x: "x \<in> set rest"
      from not_in_image[OF nin x] have "notificationC x \<noteq> ?a" .
      with all x show "chans h2 (notificationC x)
                 = Some \<lparr>buf = [], cap = 1, isClosed = False\<rparr>"
        by (simp add: list_all_iff h2_def)
    qed
    with d have "subs_ok h2 rest" by (simp add: subs_ok_def)
    from Cons.IH[OF this] obtain h' where
      r: "notifyLoop st rest h2 = Inr (filter (\<lambda>s. \<not> ready st s) rest, h')"
      and e: "events h' = events h2 @ concat (map (fired st) (filter (ready st) rest))"
      and c: "\<forall>s\<in>set rest. chans h' (notificationC s)
            = (if ready st s then Some \<lparr>buf = [st], cap = 1, isClosed = True\<rparr>
               else chans h2 (notificationC s))"
      and f: "\<forall>ch. ch \<notin> notificationC ` set rest \<longrightarrow> chans h' ch = chans h2 ch"
      by (elim exE conjE)
    from f nin have a: "chans h' ?a = Some \<lparr>buf = [st], cap = 1, isClosed = True\<rparr>"
      by (simp add: h2_def)
    have c': "\<forall>s\<in>set rest. chans h' (notificationC s)
            = (if ready st s then Some \<lparr>buf = [st], cap = 1, isClosed = True\<rparr>
               else chans h (notificationC s))"
    proof
      fix x assume x: "x \<in> set rest"
      from not_in_image[OF nin x] have "notificationC x \<noteq> ?a" .
      with c x show "chans h' (notificationC x)
            = (if ready st x then Some \<lparr>buf = [st], cap = 1, isClosed = True\<rparr>
               else chans h (notificationC x))" by (simp add: h2_def)
    qed
    have f': "\<forall>ch. ch \<notin> notificationC ` set (s # rest) \<longrightarrow> chans h' ch = chans h ch"
      using f by (simp add: h2_def)
    have e': "events h' = events h @ concat (map (fired st) (filter (ready st) (s # rest)))"
      using e True by (simp add: h2_def fired_def)
    from step r True a c' f' e' show ?thesis by (intro exI[of _ h']) simp
  qed
qed

text \<open>
  C7. When the subscribers of a job are notified, each with a channel as subscribe made
  it, notifySubscribers returns; the status is sent once to the channel of every
  subscriber that is ready (the status is FAILED or CANCELLED, or its subscribed offset
  is at most the status offset) and the channel is closed, subscriber after subscriber
  in the order of the list; the ready subscribers leave the list and the others stay,
  in their order, with their channels untouched. When a download fails, the status
  becomes FAILED with the error, every subscriber is notified of this status whatever
  its offset, and no subscriber stays.
\<close>

theorem notify_ready_subscribers:
  assumes "subs_ok h (subscribers job)"
  shows "(\<exists>job' h'. notifySubscribers job h = Inr (job', h')
            \<and> status job' = status job
            \<and> subscribers job' = filter (\<lambda>s. \<not> ready (status job) s) (subscribers job)
            \<and> events h' = events h
                 @ concat (map (fired (status job)) (filter (ready (status job)) (subscribers job)))
            \<and> (\<forall>s\<in>set (subscribers job). chans h' (notificationC s)
                  = (if ready (status job) s
                     then Some \<lparr>buf = [status job], cap = 1, isClosed = True\<rparr>
                     else chans h (notificationC s))))
       \<and> (\<exists>job' h'. failWhileDownloading downloadErr job h = Inr (job', h')
            \<and> status job' = \<lparr>Name = FAILED, Err = Some downloadErr, Offset = Offset (status job)\<rparr>
            \<and> subscribers job' = []
            \<and> events h' = events h @ concat (map (fired (status job')) (subscribers job))
            \<and> (\<forall>s\<in>set (subscribers job). chans h' (notificationC s)
                  = Some \<lparr>buf = [status job'], cap = 1, isClosed = True\<rparr>))"
proof
  from notifyLoop_ok[OF assms, of "status job"] obtain h' where
    r: "notifyLoop (status job) (subscribers job) h
          = Inr (filter (\<lambda>s. \<not> ready (status job) s) (subscribers job), h')"
    and e: "events h' = events h
              @ concat (map (fired (status job)) (filter (ready (status job)) (subscribers job)))"
    and c: "\<forall>s\<in>set (subscribers job). chans h' (notificationC s)
              = (if ready (status job) s
                 then Some \<lparr>buf = [status job], cap = 1, isClosed = True\<rparr>
                 else chans h (notificationC s))"
    by (elim exE conjE)
  let ?job' = "job\<lparr>subscribers := filter (\<lambda>s. \<not> ready (status job) s) (subscribers job)\<rparr>"
  have "notifySubscribers job h = Inr (?job', h')"
    using r by (simp add: notifySubscribers_def)
  with e c show "\<exists>job' h'. notifySubscribers job h = Inr (job', h')
            \<and> status job' = status job
            \<and> subscribers job' = filter (\<lambda>s. \<not> ready (status job) s) (subscribers job)
            \<and> events h' = events h
                 @ concat (map (fired (status job)) (filter (ready (status job)) (subscribers job)))
            \<and> (\<forall>s\<in>set (subscribers job). chans h' (notificationC s)
                  = (if ready (status job) s
                     then Some \<lparr>buf = [status job], cap = 1, isClosed = True\<rparr>
                     else chans h (notificationC s)))"
    by (intro exI[of _ ?job'] exI[of _ h']) simp
next
  let ?st = "\<lparr>Name = FAILED, Err = Some downloadErr, Offset = Offset (status job)\<rparr>"
  have st: "(status job)\<lparr>Err := Some downloadErr, Name := FAILED\<rparr> = ?st" by simp
  have rd: "\<And>s. ready ?st s" by (simp add: ready_def)
  from notifyLoop_ok[OF assms, of ?st] obtain h' where
    r: "notifyLoop ?st (subscribers job) h
          = Inr (filter (\<lambda>s. \<not> ready ?st s) (subscribers job), h')"
    and e: "events h' = events h
              @ concat (map (fired ?st) (filter (ready ?st) (subscribers job)))"
    and c: "\<forall>s\<in>set (subscribers job). chans h' (notificationC s)
              = (if ready ?st s then Some \<lparr>buf = [?st], cap = 1, isClosed = True\<rparr>
                 else chans h (notificationC s))"
    by (elim exE conjE)
  let ?job' = "job\<lparr>status := ?st, subscribers := []\<rparr>"
  have "failWhileDownloading downloadErr job h = Inr (?job', h')"
    using r rd by (simp add: failWhileDownloading_def notifySubscribers_def st)
  moreover have "events h' = events h @ concat (map (fired ?st) (subscribers job))"
    using e rd by simp
  moreover have "\<forall>s\<in>set (subscribers job). chans h' (notificationC s)
                  = Some \<lparr>buf = [?st], cap = 1, isClosed = True\<rparr>"
    using c rd by simp
  ultimately show "\<exists>job' h'. failWhileDownloading downloadErr job h = Inr (job', h')
            \<and> status job' = ?st
            \<and> subscribers job' = []
            \<and> events h' = events h @ concat (map (fired (status job')) (subscribers job))
            \<and> (\<forall>s\<in>set (subscribers job). chans h' (notificationC s)
                  = Some \<lparr>buf = [status job'], cap = 1, isClosed = True\<rparr>)"
    by (intro exI[of _ ?job'] exI[of _ h']) simp
qed

lemmas status_names = NOT_STARTED_def DOWNLOADING_def COMPLETED_def FAILED_def CANCELLED_def

theorem notify_ready_subscribers_witness:
  "\<exists>job' h' job'' h''.
      notifySubscribers (fst threeSubscribers) (snd threeSubscribers) = Inr (job', h')
    \<and> map subscribedOffset (subscribers job') = [1000, 1000000]
    \<and> events h' = [Sent 0 \<lparr>Name = DOWNLOADING, Err = None, Offset = 50\<rparr>, Closed 0]
    \<and> failWhileDownloading ''connection reset'' (fst threeSubscribers) (snd threeSubscribers)
        = Inr (job'', h'')
    \<and> subscribers job'' = []
    \<and> events h''
        = [Sent 0 \<lparr>Name = FAILED, Err = Some ''connection reset'', Offset = 50\<rparr>, Closed 0,
           Sent 1 \<lparr>Name = FAILED, Err = Some ''connection reset'', Offset = 50\<rparr>, Closed 1,
           Sent 2 \<lparr>Name = FAILED, Err = Some ''connection reset'', Offset = 50\<rparr>, Closed 2]"
proof -
  let ?job = "fst threeSubscribers" and ?h = "snd threeSubscribers"
  have ok: "subs_ok ?h (subscribers ?job)"
    by (simp add: threeSubscribers_eq subs_ok_def)
  have st: "status ?job = \<lparr>Name = DOWNLOADING, Err = None, Offset = 50\<rparr>"
    by (simp add: threeSubscribers_eq)
  have su: "subscribers ?job = [\<lparr>notificationC = 0, subscribedOffset = 10\<rparr>,
                                 \<lparr>notificationC = Suc 0, subscribedOffset = 1000\<rparr>,
                                 \<lparr>notificationC = Suc (Suc 0), subscribedOffset = 1000000\<rparr>]"
    by (simp add: threeSubscribers_eq)
  have ev: "events ?h = []" by (simp add: threeSubscribers_eq)
  have r1: "ready \<lparr>Name = DOWNLOADING, Err = None, Offset = 50\<rparr>
              \<lparr>notificationC = 0, subscribedOffset = 10\<rparr>"
    by (simp add: ready_def)
  have r2: "\<not> ready \<lparr>Name = DOWNLOADING, Err = None, Offset = 50\<rparr>
              \<lparr>notificationC = Suc 0, subscribedOffset = 1000\<rparr>"
    by (simp add: ready_def status_names)
  have r3: "\<not> ready \<lparr>Name = DOWNLOADING, Err = None, Offset = 50\<rparr>
              \<lparr>notificationC = Suc (Suc 0), subscribedOffset = 1000000\<rparr>"
    by (simp add: ready_def status_names)
  from notify_ready_subscribers[OF ok, of "''connection reset''"]
  obtain job' h' job'' h'' where
    n: "notifySubscribers ?job ?h = Inr (job', h')"
    and ns: "subscribers job' = filter (\<lambda>s. \<not> ready (status ?job) s) (subscribers ?job)"
    and ne: "events h' = events ?h
               @ concat (map (fired (status ?job)) (filter (ready (status ?job)) (subscribers ?job)))"
    and f: "failWhileDownloading ''connection reset'' ?job ?h = Inr (job'', h'')"
    and fst: "status job''
                = \<lparr>Name = FAILED, Err = Some ''connection reset'', Offset = Offset (status ?job)\<rparr>"
    and fs: "subscribers job'' = []"
    and fe: "events h'' = events ?h @ concat (map (fired (status job'')) (subscribers ?job))"
    by (elim exE conjE)
  have a: "map subscribedOffset (subscribers job') = [1000, 1000000]"
    unfolding ns st su using r1 r2 r3 by simp
  have b: "events h' = [Sent 0 \<lparr>Name = DOWNLOADING, Err = None, Offset = 50\<rparr>, Closed 0]"
    unfolding ne st su ev using r1 r2 r3 by (simp add: fired_def)
  have c: "events h''
        = [Sent 0 \<lparr>Name = FAILED, Err = Some ''connection reset'', Offset = 50\<rparr>, Closed 0,
           Sent 1 \<lparr>Name = FAILED, Err = Some ''connection reset'', Offset = 50\<rparr>, Closed 1,
           Sent 2 \<lparr>Name = FAILED, Err = Some ''connection reset'', Offset = 50\<rparr>, Closed 2]"
    unfolding fe fst st su ev by (simp add: fired_def numeral_2_eq_2)
  show ?thesis
    by (rule exI[of _ job'], rule exI[of _ h'], rule exI[of _ job''], rule exI[of _ h''])
       (intro conjI n a b f fs c)
qed

lemma notifySubscribers_status:
  "notifySubscribers job h = Inr (job', h') \<Longrightarrow> status job' = status job"
  by (auto simp: notifySubscribers_def split: sum.splits)

lemma jobStep_offset:
  assumes "jobStep (job, h) x = Inr (job', h')"
  shows "Offset (status job') = Offset (status job)"
proof (cases x)
  case (OpDownload off w)
  with assms show ?thesis by (simp add: Download_def)
next
  case OpCancel
  with assms show ?thesis by (simp add: Cancel_def)
next
  case (OpFail e)
  with assms have "notifySubscribers
       (job\<lparr>status := (status job)\<lparr>Err := Some e, Name := FAILED\<rparr>\<rparr>) h = Inr (job', h')"
    by (simp add: failWhileDownloading_def)
  from notifySubscribers_status[OF this] show ?thesis by simp
qed

lemma runJob_offset:
  "runJob (job, h) ops = Inr (job', h') \<Longrightarrow> Offset (status job') = Offset (status job)"
proof (induction ops arbitrary: job h)
  case Nil
  then show ?case by simp
next
  case (Cons x xs)
  from Cons.prems obtain job1 h1 where a: "jobStep (job, h) x = Inr (job1, h1)"
    and r: "runJob (job1, h1) xs = Inr (job', h')"
    by (cases "jobStep (job, h) x") auto
  from Cons.IH[OF r] jobStep_offset[OF a] show ?case by simp
qed

text \<open>
  C9. Over every sequence of Download, Cancel and failure steps that a job runs from any
  state it is in, the status offset at the end is not below the offset at the start
  when the job was DOWNLOADING, and is the offset at the start when the job was
  COMPLETED, FAILED or CANCELLED.
\<close>

theorem offset_monotone_then_frozen:
  assumes "runJob (job, h) ops = Inr (job', h')"
  shows "(Name (status job) = DOWNLOADING
            \<longrightarrow> sint (Offset (status job)) \<le> sint (Offset (status job')))
       \<and> (Name (status job) = COMPLETED \<or> Name (status job) = FAILED
            \<or> Name (status job) = CANCELLED
            \<longrightarrow> Offset (status job') = Offset (status job))"
  using runJob_offset[OF assms] by simp

theorem offset_monotone_then_frozen_witness:
  "\<exists>job1 h1 job2 h2.
      runJob threeSubscribers [OpDownload 100 False, OpFail ''connection reset''] = Inr (job1, h1)
    \<and> runJob (job1, h1) [OpCancel, OpDownload 1000 False, OpFail ''again''] = Inr (job2, h2)
    \<and> Name (status (fst threeSubscribers)) = DOWNLOADING
    \<and> sint (Offset (status (fst threeSubscribers))) \<le> sint (Offset (status job1))
    \<and> Name (status job1) = FAILED
    \<and> Offset (status job2) = Offset (status job1)
    \<and> Offset (status job2) = 50"
proof -
  let ?F = "\<lparr>Name = FAILED, Err = Some ''connection reset'', Offset = 50\<rparr>"
  let ?h1 = "\<lparr>chans = Map.empty(0 \<mapsto> \<lparr>buf = [?F], cap = 1, isClosed = True\<rparr>,
                         Suc 0 \<mapsto> \<lparr>buf = [?F], cap = 1, isClosed = True\<rparr>,
                         Suc (Suc 0) \<mapsto> \<lparr>buf = [?F], cap = 1, isClosed = True\<rparr>),
              events = [Sent 0 ?F, Closed 0, Sent (Suc 0) ?F, Closed (Suc 0),
                        Sent (Suc (Suc 0)) ?F, Closed (Suc (Suc 0))],
              nextChan = Suc (Suc (Suc 0))\<rparr>"
  let ?job1 = "exampleJob\<lparr>status := ?F, subscribers := []\<rparr>"
  let ?job2 = "exampleJob\<lparr>status := \<lparr>Name = FAILED, Err = Some ''again'', Offset = 50\<rparr>,
                          subscribers := []\<rparr>"
  have p: "threeSubscribers = (fst threeSubscribers, snd threeSubscribers)" by simp
  have r1: "runJob (fst threeSubscribers, snd threeSubscribers)
              [OpDownload 100 False, OpFail ''connection reset''] = Inr (?job1, ?h1)"
    by (simp add: threeSubscribers_eq Download_def failWhileDownloading_def
          notifySubscribers_def ready_def send_def close_def)
  have r2: "runJob (?job1, ?h1) [OpCancel, OpDownload 1000 False, OpFail ''again'']
              = Inr (?job2, ?h1)"
    by (simp add: Cancel_def Download_def failWhileDownloading_def notifySubscribers_def)
  have n0: "Name (status (fst threeSubscribers)) = DOWNLOADING"
    by (simp add: threeSubscribers_eq)
  have n1: "Name (status ?job1) = FAILED" by simp
  from offset_monotone_then_frozen[OF r1] n0
  have a: "sint (Offset (status (fst threeSubscribers))) \<le> sint (Offset (status ?job1))"
    by blast
  from offset_monotone_then_frozen[OF r2] n1
  have b: "Offset (status ?job2) = Offset (status ?job1)" by blast
  have c: "Offset (status ?job2) = 50" by simp
  from r1 have r1': "runJob threeSubscribers
      [OpDownload 100 False, OpFail ''connection reset''] = Inr (?job1, ?h1)" by simp
  show ?thesis
    by (rule exI[of _ ?job1], rule exI[of _ ?h1], rule exI[of _ ?job2], rule exI[of _ ?h1])
       (intro conjI r1' r2 n0 a n1 b c)
qed

text \<open>
  C6. The first Download on a job that has not started should start the fetch and
  leave the job DOWNLOADING, and a Download that does not wait should return the job's
  status. On a new job, Download leaves the job as it was, NOT_STARTED, and returns the
  zero JobStatus, whose name is empty.
\<close>

theorem Download_does_nothing:
  "Name (status (NewJob obj b)) = NOT_STARTED
   \<and> snd (Download (NewJob obj b) off False) = NewJob obj b
   \<and> Name (status (snd (Download (NewJob obj b) off False))) \<noteq> DOWNLOADING
   \<and> fst (Download (NewJob obj b) off False) = \<lparr>Name = [], Err = None, Offset = 0\<rparr>
   \<and> fst (Download (NewJob obj b) off False) \<noteq> status (NewJob obj b)"
  by (simp add: Download_def NewJob_def init_def status_names)

text \<open>
  C8. Cancel on a job that is not in a terminal state should leave it CANCELLED and
  notify its subscribers. On a new job, and on the job that is DOWNLOADING with three
  subscribers, Cancel leaves the job as it was: the status name is the same and the
  three subscribers are still in the list.
\<close>

theorem Cancel_does_nothing:
  "Name (status (NewJob obj b)) = NOT_STARTED
   \<and> Name (status (Cancel (NewJob obj b))) \<noteq> CANCELLED
   \<and> Name (status (fst threeSubscribers)) = DOWNLOADING
   \<and> Cancel (fst threeSubscribers) = fst threeSubscribers
   \<and> Name (status (Cancel (fst threeSubscribers))) \<noteq> CANCELLED
   \<and> length (subscribers (Cancel (fst threeSubscribers))) = 3"
  by (simp add: Cancel_def NewJob_def init_def status_names threeSubscribers_eq)

end
